theory Spec2Isabelle
  imports Main "HOL-Library.Sublist" "HOL-Library.AList" "HOL-Library.Multiset"
begin

text \<open>
  A model of \<^verbatim>\<open>main.go\<close> of ecs-images: the program lists the services of an ECS
  cluster, the tasks of each service, the task definition of each task and the
  container images of each task definition, and reports for every image the services
  that use it.
\<close>

section \<open>Short names of services\<close>

text \<open>
  Go's slice expression \<^verbatim>\<open>s[lo:hi]\<close>, for \<open>lo \<le> hi \<le> length s\<close> (the only way the
  program uses it).
\<close>

definition slice :: "'a list \<Rightarrow> nat \<Rightarrow> nat \<Rightarrow> 'a list" where
  "slice s lo hi = take (hi - lo) (drop lo s)"

text \<open>
  \<^verbatim>\<open>splitArn\<close> (lines 190 to 205): the loop over the bytes of \<open>arn\<close> with its index
  \<open>i\<close>, the start of the current segment and the segments found so far; after the
  loop the rest of the string is appended only when it is not empty.
\<close>

function splitArn_loop :: "string \<Rightarrow> nat \<Rightarrow> nat \<Rightarrow> string list \<Rightarrow> string list" where
  "splitArn_loop arn i start out =
     (if i < length arn then
        (if arn ! i = CHR ''/'' then splitArn_loop arn (i + 1) (i + 1) (out @ [slice arn start i])
         else splitArn_loop arn (i + 1) start out)
      else (if start < length arn then out @ [slice arn start (length arn)] else out))"
  by pat_completeness auto
termination
  by (relation "measure (\<lambda>(arn, i, start, out). length arn - i)") auto

declare splitArn_loop.simps [simp del]

definition splitArn :: "string \<Rightarrow> string list" where
  "splitArn arn = splitArn_loop arn 0 0 []"

text \<open>
  Line 64 reads \<^verbatim>\<open>parts[len(parts)-1]\<close>. On an empty slice the index is \<open>-1\<close> and the
  Go runtime panics.
\<close>

datatype panic = IndexOutOfRange

definition lastPart :: "string list \<Rightarrow> panic + string" where
  "lastPart parts = (if length parts = 0 then Inl IndexOutOfRange else Inr (parts ! (length parts - 1)))"

definition shortName :: "string \<Rightarrow> panic + string" where
  "shortName arn = lastPart (splitArn arn)"

text \<open>
  The derivation as the specification words it: the identifier is split on \<open>/\<close> (every
  separator ends a segment, so \<open>n\<close> separators give \<open>n + 1\<close> segments, some of them
  possibly empty) and the short name is the last segment that is not empty.
\<close>

fun split_slash :: "string \<Rightarrow> string list" where
  "split_slash [] = [[]]"
| "split_slash (c # cs) =
     (if c = CHR ''/'' then [] # split_slash cs
      else (case split_slash cs of [] \<Rightarrow> [[c]] | s # ss \<Rightarrow> (c # s) # ss))"

definition last_nonempty_segment :: "string \<Rightarrow> string option" where
  "last_nonempty_segment arn =
     (case filter (\<lambda>s. s \<noteq> []) (split_slash arn) of [] \<Rightarrow> None | s # ss \<Rightarrow> Some (last (s # ss)))"

section \<open>The remote service\<close>

text \<open>
  Modelled from the spec: the types of the AWS SDK are not part of the repository. The
  interface section of the specification gives the answers of the four remote
  operations: service identifiers in pages, task identifiers of a service, a list of
  (task identifier, task definition identifier) for a batch of tasks, and the image URIs
  of the containers of a task definition. Each call may fail instead. The client is a
  parameter of the model: a remote operation is a function of its request, and
  \<open>ListServicesPages\<close> is the sequence of answers the paginator gets until no
  continuation token is left.
\<close>

datatype api_error = ApiError

record Task =
  TaskArn :: string
  TaskDefinitionArn :: string

record ECS =
  ListServicesPages :: "(api_error + string list) list"
  ListTasks :: "string \<Rightarrow> api_error + string list"
  DescribeTasks :: "string list \<Rightarrow> api_error + Task list"
  DescribeTaskDefinition :: "string \<Rightarrow> api_error + string list"

section \<open>Go maps\<close>

text \<open>
  A Go map is an association list with one entry per key: the assignment
  \<^verbatim>\<open>m[k] = v\<close> is \<^const>\<open>AList.update\<close>, which replaces the value of a key that is
  present and adds an entry otherwise. Reading \<^verbatim>\<open>m[k]\<close> gives the zero value of the
  value type when the key is absent. A set \<^verbatim>\<open>map[string]struct{}\<close> is the list of its
  keys, and \<^verbatim>\<open>s[k] = struct{}{}\<close> is \<^const>\<open>List.insert\<close>, which leaves the list as it is
  when the key is there already. Go iterates over a map in no fixed order; the lists
  fix one.
\<close>

definition mapIndex :: "'v \<Rightarrow> ('k \<times> 'v) list \<Rightarrow> 'k \<Rightarrow> 'v" where
  "mapIndex zero m k = (case map_of m k of None \<Rightarrow> zero | Some v \<Rightarrow> v)"

definition hasKey :: "('k \<times> 'v) list \<Rightarrow> 'k \<Rightarrow> bool" where
  "hasKey m k = (map_of m k \<noteq> None)"

section \<open>The stages of main\<close>

text \<open>Lines 46 to 54: the pages of service identifiers; a page that fails is fatal.\<close>

fun listServices :: "(api_error + string list) list \<Rightarrow> string list \<Rightarrow> api_error + string list" where
  "listServices [] serviceArns = Inr serviceArns"
| "listServices (Inl err # pages) serviceArns = Inl err"
| "listServices (Inr page # pages) serviceArns = listServices pages (serviceArns @ page)"

text \<open>Lines 60 to 66: the short name of every service, in the order of enumeration.\<close>

fun deriveNames :: "string list \<Rightarrow> string list \<times> (string \<times> string) list \<Rightarrow>
    panic + string list \<times> (string \<times> string) list" where
  "deriveNames [] acc = Inr acc"
| "deriveNames (arn # arns) (serviceNames, serviceNameToArn) =
     (case lastPart (splitArn arn) of
        Inl p \<Rightarrow> Inl p
      | Inr name \<Rightarrow> deriveNames arns (serviceNames @ [name], AList.update name arn serviceNameToArn))"

text \<open>
  Lines 78 to 99: one worker per service name. What a worker does to the shared task
  list and to the reverse index happens between \<^verbatim>\<open>mu.Lock()\<close> and \<^verbatim>\<open>mu.Unlock()\<close>,
  so the workers' updates take place one after the other, in the order in which the
  workers get the lock. A worker whose call failed changes nothing.
\<close>

record Listing =
  taskArns :: "string list"
  taskToService :: "(string \<times> string) list"

definition listTasksWorker :: "ECS \<Rightarrow> string \<Rightarrow> Listing \<Rightarrow> Listing" where
  "listTasksWorker client svcName st =
     (case ListTasks client svcName of
        Inl err \<Rightarrow> st
      | Inr arns \<Rightarrow>
          \<lparr>taskArns = taskArns st @ arns,
           taskToService = fold (\<lambda>t m. AList.update t svcName m) arns (taskToService st)\<rparr>)"

definition listAllTasks :: "ECS \<Rightarrow> string list \<Rightarrow> Listing" where
  "listAllTasks client order = fold (listTasksWorker client) order \<lparr>taskArns = [], taskToService = []\<rparr>"

text \<open>
  The Go scheduler decides the order in which workers get the lock. The model takes a
  proposed order as an argument and follows it when it is a rearrangement of the work
  at hand; otherwise the work is done in program order. Every value of
  \<open>pickOrder hint work\<close> is therefore an order the program can take.
\<close>

definition pickOrder :: "'a list \<Rightarrow> 'a list \<Rightarrow> 'a list" where
  "pickOrder hint work = (if mset hint = mset work then hint else work)"

text \<open>
  Lines 108 to 133: the task list is cut into batches of at most 100 identifiers;
  \<open>describeCalls\<close> records the batches for which \<^verbatim>\<open>DescribeTasks\<close> is called. A batch
  whose call failed is skipped. For every task of an answer (lines 123 to 130) the
  definition is added to the set of definitions and the service that the reverse index
  gives for the task is added to the owners of the definition.
\<close>

record Ownership =
  describeCalls :: "string list list"
  taskDefArns :: "string list"
  taskDefToService :: "(string \<times> string list) list"

definition recordTask :: "(string \<times> string) list \<Rightarrow> Task \<Rightarrow> Ownership \<Rightarrow> Ownership" where
  "recordTask t2s task st =
     (let serviceName = mapIndex [] t2s (TaskArn task);
          m = (if \<not> hasKey (taskDefToService st) (TaskDefinitionArn task)
               then AList.update (TaskDefinitionArn task) [] (taskDefToService st)
               else taskDefToService st)
      in st\<lparr>taskDefArns := List.insert (TaskDefinitionArn task) (taskDefArns st),
            taskDefToService :=
              AList.update (TaskDefinitionArn task)
                (List.insert serviceName (mapIndex [] m (TaskDefinitionArn task))) m\<rparr>)"

definition describeBatch :: "ECS \<Rightarrow> (string \<times> string) list \<Rightarrow> string list \<Rightarrow> Ownership \<Rightarrow> Ownership" where
  "describeBatch client t2s batch st =
     (let st' = st\<lparr>describeCalls := describeCalls st @ [batch]\<rparr>
      in case DescribeTasks client batch of
           Inl err \<Rightarrow> st'
         | Inr tasks \<Rightarrow> fold (recordTask t2s) tasks st')"

function describeLoop :: "ECS \<Rightarrow> (string \<times> string) list \<Rightarrow> string list \<Rightarrow> nat \<Rightarrow> Ownership \<Rightarrow> Ownership" where
  "describeLoop client t2s arns i st =
     (if i < length arns then
        (let end = (if i + 100 > length arns then length arns else i + 100)
         in describeLoop client t2s arns (i + 100) (describeBatch client t2s (slice arns i end) st))
      else st)"
  by pat_completeness auto
termination
  by (relation "measure (\<lambda>(client, t2s, arns, i, st). length arns - i)") auto

declare describeLoop.simps [simp del]

definition describeAllTasks :: "ECS \<Rightarrow> Listing \<Rightarrow> Ownership" where
  "describeAllTasks client l =
     describeLoop client (taskToService l) (taskArns l) 0
       \<lparr>describeCalls = [], taskDefArns = [], taskDefToService = []\<rparr>"

text \<open>
  Lines 146 to 172: one worker per task definition. A worker whose call succeeded
  enters one critical section per container of the definition (lines 159 to 166), in
  which the owners of the definition are added to the owners of the container's image.
  \<open>criticalSections\<close> lists these sections as pairs (definition, image); the workers of
  different definitions interleave them. \<open>taskDefList\<close> holds the keys of the set of
  definitions (lines 138 to 141).
\<close>

definition mergeImage :: "(string \<times> string list) list \<Rightarrow> string \<times> string \<Rightarrow>
    (string \<times> string list) list \<Rightarrow> (string \<times> string list) list" where
  "mergeImage td2s sec i2s =
     (let services = mapIndex [] td2s (fst sec);
          img = snd sec;
          m = (if \<not> hasKey i2s img then AList.update img [] i2s else i2s)
      in fold (\<lambda>svc m. AList.update img (List.insert svc (mapIndex [] m img)) m) services m)"

definition criticalSections :: "ECS \<Rightarrow> string list \<Rightarrow> (string \<times> string) list" where
  "criticalSections client taskDefList =
     concat (map (\<lambda>tdArn. case DescribeTaskDefinition client tdArn of
                             Inl err \<Rightarrow> []
                           | Inr images \<Rightarrow> map (Pair tdArn) images) taskDefList)"

definition resolveImages :: "(string \<times> string list) list \<Rightarrow> (string \<times> string) list \<Rightarrow>
    (string \<times> string list) list" where
  "resolveImages td2s merges = fold (mergeImage td2s) merges []"

text \<open>Lines 175 to 187: the report, one call of a print function per element.\<close>

definition imageLines :: "string \<Rightarrow> string list \<Rightarrow> string list" where
  "imageLines img services =
     [img] @
     (if length services > 0 then ''  Services:'' # map (\<lambda>svc. ''    - '' @ svc) services
      else [''  No active services using this image'']) @
     ['''']"

definition reportLines :: "(string \<times> string list) list \<Rightarrow> string list" where
  "reportLines i2s = concat (map (\<lambda>(img, services). imageLines img services) i2s)"

text \<open>
  A run of the program: what it printed on standard output (one element per call of a
  print function), how it ended (the exit code, or a panic), and the final state (the
  variables of \<^verbatim>\<open>main\<close> when the report is printed) when the run got there.
\<close>

datatype status = Exit nat | Panicked panic

record Final =
  names :: "string list"
  listing :: Listing
  ownership :: Ownership
  imageToServices :: "(string \<times> string list) list"

record run =
  stdout :: "string list"
  status :: status
  final :: "Final option"

record schedule =
  listingOrder :: "string list"
  mergeOrder :: "(string \<times> string) list"

definition reportStage :: "string list \<Rightarrow> ECS \<Rightarrow> schedule \<Rightarrow> string list \<Rightarrow> Listing \<Rightarrow> run" where
  "reportStage out2 client sched serviceNames l =
     (let out3 = out2 @ [''Describing tasks to get task definitions...''];
          own = describeAllTasks client l;
          out4 = out3 @ [''Describing task definitions to get container images...''];
          taskDefList = taskDefArns own;
          merges = pickOrder (mergeOrder sched) (criticalSections client taskDefList);
          images = resolveImages (taskDefToService own) merges
      in \<lparr>stdout = out4 @ [CHR 0x0A # ''Unique container image URIs and services using them:'']
                     @ reportLines images,
          status = Exit 0,
          final = Some \<lparr>names = serviceNames, listing = l, ownership = own,
                         imageToServices = images\<rparr>\<rparr>)"

definition taskStage :: "string list \<Rightarrow> ECS \<Rightarrow> schedule \<Rightarrow> string list \<Rightarrow> run" where
  "taskStage out1 client sched serviceNames =
     (let out2 = out1 @ [''Fetching task ARNs for each service...''];
          l = listAllTasks client (pickOrder (listingOrder sched) serviceNames)
      in if length (taskArns l) = 0
         then \<lparr>stdout = out2 @ [''No tasks found.''], status = Exit 0, final = None\<rparr>
         else reportStage out2 client sched serviceNames l)"

definition serviceStage :: "string \<Rightarrow> ECS \<Rightarrow> schedule \<Rightarrow> run" where
  "serviceStage cluster client sched =
     (let out1 = [''Fetching services in cluster '' @ [CHR 0x27] @ cluster @ [CHR 0x27] @ ''...'']
      in case listServices (ListServicesPages client) [] of
           Inl err \<Rightarrow> \<lparr>stdout = out1, status = Exit 1, final = None\<rparr>
         | Inr serviceArns \<Rightarrow>
             if length serviceArns = 0
             then \<lparr>stdout = out1 @ [''No services found.''], status = Exit 0, final = None\<rparr>
             else (case deriveNames serviceArns ([], []) of
                     Inl p \<Rightarrow> \<lparr>stdout = out1, status = Panicked p, final = None\<rparr>
                   | Inr derived \<Rightarrow> taskStage out1 client sched (fst derived)))"

text \<open>
  Lines 28 to 43: the flags and the configuration. \<open>cfg\<close> is what loading the
  configuration gives: an error, or the client.
\<close>

definition main :: "string \<Rightarrow> api_error + ECS \<Rightarrow> schedule \<Rightarrow> run" where
  "main cluster cfg sched =
     (if cluster = [] then \<lparr>stdout = [''--cluster is required''], status = Exit 1, final = None\<rparr>
      else (case cfg of
              Inl err \<Rightarrow> \<lparr>stdout = [], status = Exit 1, final = None\<rparr>
            | Inr client \<Rightarrow> serviceStage cluster client sched))"

section \<open>The worker pools\<close>

text \<open>
  Lines 73 to 100 and lines 142 to 173 are the same pool over two work lists. The loop
  of \<^verbatim>\<open>main\<close> takes the next item and runs three statements for it: \<^verbatim>\<open>wg.Add(1)\<close>, the
  send \<^verbatim>\<open>sem <- struct{}{}\<close> on a channel of capacity 5, which waits while the channel is
  full, and the \<^verbatim>\<open>go\<close> statement, which starts a worker for the item. After the loop
  \<^verbatim>\<open>wg.Wait()\<close> waits until the counter of the wait group is zero. A worker makes its
  call, runs its critical sections under the mutex when the call succeeded (one section
  in the first pool, one per container in the second), calls \<^verbatim>\<open>bar.Add(1)\<close>, and then runs
  its deferred functions, last deferred first: the receive \<^verbatim>\<open><-sem\<close> and \<^verbatim>\<open>wg.Done()\<close>.

  A state of the pool holds the items that the loop has not started yet, the statement
  that \<^verbatim>\<open>main\<close> is at, the number of elements in the channel, the counter of the wait
  group, the workers that have started and not ended, each with its item and the
  statement it is at, and the progress counter. It also records the items whose call has
  been made, the items whose worker has passed \<^verbatim>\<open>bar.Add(1)\<close>, the critical sections that
  have run, in their order, and the shared data.
\<close>

datatype mainpc = AtAdd | AtSend | AtGo | AtWait | Returned

datatype 'm workerpc = AtCall | AtMerge "'m list" | AtBarAdd | AtRelease | AtDone

record ('a, 'm, 's) pool =
  pending :: "'a list"
  mainAt :: mainpc
  sem :: nat
  wg :: nat
  workers :: "('a \<times> 'm workerpc) multiset"
  bar :: nat
  attempted :: "'a list"
  completed :: "'a list"
  merged :: "'m list"
  shared :: 's

definition limit :: nat where
  "limit = 5"

definition startPool :: "'a list \<Rightarrow> 's \<Rightarrow> ('a, 'm, 's) pool" where
  "startPool items s0 =
     \<lparr>pending = items, mainAt = AtAdd, sem = 0, wg = 0, workers = {#}, bar = 0,
      attempted = [], completed = [], merged = [], shared = s0\<rparr>"

definition moveWorker :: "'a \<times> 'm workerpc \<Rightarrow> 'm workerpc \<Rightarrow> ('a \<times> 'm workerpc) multiset \<Rightarrow>
    ('a \<times> 'm workerpc) multiset" where
  "moveWorker w pc ws = add_mset (fst w, pc) (ws - {#w#})"

text \<open>
  One statement of \<^verbatim>\<open>main\<close> or of one worker at a time, in any order. \<open>work x\<close> is the
  outcome of the call for the item \<open>x\<close>: an error, or the critical sections that the
  worker has to run; \<open>merge m\<close> is what the critical section \<open>m\<close> does to the shared data.
  A send on the full channel, a receive on the empty channel and \<^verbatim>\<open>wg.Wait()\<close> with a
  positive counter take no step.
\<close>

inductive poolStep :: "('a \<Rightarrow> api_error + 'm list) \<Rightarrow> ('m \<Rightarrow> 's \<Rightarrow> 's) \<Rightarrow>
    ('a, 'm, 's) pool \<Rightarrow> ('a, 'm, 's) pool \<Rightarrow> bool"
  for work :: "'a \<Rightarrow> api_error + 'm list" and merge :: "'m \<Rightarrow> 's \<Rightarrow> 's" where
  wgAdd: "mainAt p = AtAdd \<Longrightarrow> pending p = x # xs \<Longrightarrow>
      poolStep work merge p (p\<lparr>wg := wg p + 1, mainAt := AtSend\<rparr>)"
| semSend: "mainAt p = AtSend \<Longrightarrow> sem p < limit \<Longrightarrow>
      poolStep work merge p (p\<lparr>sem := sem p + 1, mainAt := AtGo\<rparr>)"
| go: "mainAt p = AtGo \<Longrightarrow> pending p = x # xs \<Longrightarrow>
      poolStep work merge p
        (p\<lparr>workers := add_mset (x, AtCall) (workers p), pending := xs, mainAt := AtAdd\<rparr>)"
| loopEnd: "mainAt p = AtAdd \<Longrightarrow> pending p = [] \<Longrightarrow>
      poolStep work merge p (p\<lparr>mainAt := AtWait\<rparr>)"
| wgWait: "mainAt p = AtWait \<Longrightarrow> wg p = 0 \<Longrightarrow>
      poolStep work merge p (p\<lparr>mainAt := Returned\<rparr>)"
| callFailed: "(x, AtCall) \<in># workers p \<Longrightarrow> work x = Inl err \<Longrightarrow>
      poolStep work merge p
        (p\<lparr>workers := moveWorker (x, AtCall) AtBarAdd (workers p), attempted := attempted p @ [x]\<rparr>)"
| callReturned: "(x, AtCall) \<in># workers p \<Longrightarrow> work x = Inr ms \<Longrightarrow>
      poolStep work merge p
        (p\<lparr>workers := moveWorker (x, AtCall) (AtMerge ms) (workers p), attempted := attempted p @ [x]\<rparr>)"
| locked: "(x, AtMerge (m # ms)) \<in># workers p \<Longrightarrow>
      poolStep work merge p
        (p\<lparr>workers := moveWorker (x, AtMerge (m # ms)) (AtMerge ms) (workers p),
           shared := merge m (shared p), merged := merged p @ [m]\<rparr>)"
| mergedAll: "(x, AtMerge []) \<in># workers p \<Longrightarrow>
      poolStep work merge p (p\<lparr>workers := moveWorker (x, AtMerge []) AtBarAdd (workers p)\<rparr>)"
| barAdd: "(x, AtBarAdd) \<in># workers p \<Longrightarrow>
      poolStep work merge p
        (p\<lparr>workers := moveWorker (x, AtBarAdd) AtRelease (workers p), bar := bar p + 1,
           completed := completed p @ [x]\<rparr>)"
| semReceive: "(x, AtRelease) \<in># workers p \<Longrightarrow> 0 < sem p \<Longrightarrow>
      poolStep work merge p
        (p\<lparr>workers := moveWorker (x, AtRelease) AtDone (workers p), sem := sem p - 1\<rparr>)"
| wgDone: "(x, AtDone) \<in># workers p \<Longrightarrow> 0 < wg p \<Longrightarrow>
      poolStep work merge p (p\<lparr>workers := workers p - {#(x, AtDone)#}, wg := wg p - 1\<rparr>)"

text \<open>The states that the pool over \<open>items\<close> reaches from its start.\<close>

inductive poolReaches :: "('a \<Rightarrow> api_error + 'm list) \<Rightarrow> ('m \<Rightarrow> 's \<Rightarrow> 's) \<Rightarrow> 'a list \<Rightarrow> 's \<Rightarrow>
    ('a, 'm, 's) pool \<Rightarrow> bool"
  for work :: "'a \<Rightarrow> api_error + 'm list" and merge :: "'m \<Rightarrow> 's \<Rightarrow> 's"
    and items :: "'a list" and s0 :: 's where
  start: "poolReaches work merge items s0 (startPool items s0)"
| step: "poolReaches work merge items s0 p \<Longrightarrow> poolStep work merge p q \<Longrightarrow>
      poolReaches work merge items s0 q"

text \<open>
  The first pool works on the service names: a worker whose listing call succeeded has
  one critical section (lines 89 to 94), which is what \<open>listTasksWorker\<close> does. The second
  pool works on the task definitions: a worker whose call succeeded has one critical
  section per container (lines 159 to 166), which is \<open>mergeImage\<close>.
\<close>

definition listingWork :: "ECS \<Rightarrow> string \<Rightarrow> api_error + string list" where
  "listingWork client svcName =
     (case ListTasks client svcName of Inl err \<Rightarrow> Inl err | Inr arns \<Rightarrow> Inr [svcName])"

definition imageWork :: "ECS \<Rightarrow> string \<Rightarrow> api_error + (string \<times> string) list" where
  "imageWork client tdArn =
     (case DescribeTaskDefinition client tdArn of
        Inl err \<Rightarrow> Inl err
      | Inr images \<Rightarrow> Inr (map (Pair tdArn) images))"

text \<open>
  The action of a worker runs from its start to its receive from the channel. What the
  pool guarantees in a state: at most 5 actions are running; no item has been attempted
  or completed more often than it is in the work list; the progress counter has
  advanced once for every completed item; and when \<^verbatim>\<open>wg.Wait()\<close> has returned, no item
  and no worker is left, every item has been attempted once and completed once, and the
  progress counter is the length of the work list.
\<close>

fun inAction :: "'m workerpc \<Rightarrow> bool" where
  "inAction AtDone = False"
| "inAction pc = True"

definition running :: "('a, 'm, 's) pool \<Rightarrow> nat" where
  "running p = size (filter_mset (\<lambda>w. inAction (snd w)) (workers p))"

definition poolGuarantees :: "'a list \<Rightarrow> ('a, 'm, 's) pool \<Rightarrow> bool" where
  "poolGuarantees items p \<longleftrightarrow>
     running p \<le> 5 \<and>
     mset (attempted p) \<subseteq># mset items \<and>
     mset (completed p) \<subseteq># mset items \<and>
     bar p = length (completed p) \<and>
     (mainAt p = Returned \<longrightarrow>
        pending p = [] \<and> workers p = {#} \<and>
        mset (attempted p) = mset items \<and>
        mset (completed p) = mset items \<and>
        bar p = length items)"

section \<open>What the remote service answered\<close>

text \<open>
  The tasks that the listing call gives for a service name (none when the call fails),
  the tasks in the answer for a batch (none when the call fails), the tasks in the
  answers for all batches of a task list, and the images in the answer for a task
  definition (none when the call fails).
\<close>

definition listedTasks :: "ECS \<Rightarrow> string \<Rightarrow> string list" where
  "listedTasks client svcName = (case ListTasks client svcName of Inl err \<Rightarrow> [] | Inr arns \<Rightarrow> arns)"

definition answeredTasks :: "ECS \<Rightarrow> string list \<Rightarrow> Task list" where
  "answeredTasks client batch = (case DescribeTasks client batch of Inl err \<Rightarrow> [] | Inr tasks \<Rightarrow> tasks)"

function chunks :: "'a list \<Rightarrow> 'a list list" where
  "chunks xs = (if xs = [] then [] else take 100 xs # chunks (drop 100 xs))"
  by pat_completeness auto
termination
  by (relation "measure length") auto

declare chunks.simps [simp del]

definition describedTasks :: "ECS \<Rightarrow> string list \<Rightarrow> Task list" where
  "describedTasks client arns = concat (map (answeredTasks client) (chunks arns))"

definition declaredImages :: "ECS \<Rightarrow> string \<Rightarrow> string list" where
  "declaredImages client tdArn =
     (case DescribeTaskDefinition client tdArn of Inl err \<Rightarrow> [] | Inr images \<Rightarrow> images)"

text \<open>The owners that an ownership mapping gives for a key (none for an absent key).\<close>

definition owners :: "(string \<times> string list) list \<Rightarrow> string \<Rightarrow> string list" where
  "owners m k = mapIndex [] m k"

section \<open>The cluster behind the answers\<close>

text \<open>
  What is true of the cluster: the running tasks of each service (by short name), the
  task definition of each task and the images that each task definition declares. A
  client answers truthfully for a cluster when every call succeeds and returns what the
  cluster holds: each listing call returns the running tasks of the service, each bulk
  description returns the definition of every task it is asked about and of no other
  task, and each description of a task definition returns the images it declares.
\<close>

record Cluster =
  tasksOf :: "string \<Rightarrow> string list"
  definitionOf :: "string \<Rightarrow> string"
  imagesOf :: "string \<Rightarrow> string list"

definition answersTruthfully :: "ECS \<Rightarrow> Cluster \<Rightarrow> bool" where
  "answersTruthfully client c \<longleftrightarrow>
     (\<forall>svcName. ListTasks client svcName = Inr (tasksOf c svcName)) \<and>
     (\<forall>batch. \<exists>tasks. DescribeTasks client batch = Inr tasks \<and>
        set tasks = (\<lambda>t. \<lparr>TaskArn = t, TaskDefinitionArn = definitionOf c t\<rparr>) ` set batch) \<and>
     (\<forall>tdArn. DescribeTaskDefinition client tdArn = Inr (imagesOf c tdArn))"

text \<open>
  A service uses an image when one of its running tasks runs a task definition that
  declares a container image; it owns an image in a run when the run reaches the report
  and the final mapping has the service among the owners of some image.
\<close>

definition usesAnImage :: "Cluster \<Rightarrow> string \<Rightarrow> bool" where
  "usesAnImage c svcName \<longleftrightarrow> (\<exists>t \<in> set (tasksOf c svcName). imagesOf c (definitionOf c t) \<noteq> [])"

definition ownsAnImage :: "run \<Rightarrow> string \<Rightarrow> bool" where
  "ownsAnImage r svcName \<longleftrightarrow>
     (case final r of
        None \<Rightarrow> False
      | Some f \<Rightarrow> \<exists>entry \<in> set (imageToServices f). svcName \<in> set (snd entry))"

text \<open>The client that answers every call from the cluster, given the pages of services.\<close>

definition truthfulClient :: "(api_error + string list) list \<Rightarrow> Cluster \<Rightarrow> ECS" where
  "truthfulClient pages c =
     \<lparr>ListServicesPages = pages,
      ListTasks = (\<lambda>svcName. Inr (tasksOf c svcName)),
      DescribeTasks = (\<lambda>batch. Inr (map (\<lambda>t. \<lparr>TaskArn = t, TaskDefinitionArn = definitionOf c t\<rparr>) batch)),
      DescribeTaskDefinition = (\<lambda>tdArn. Inr (imagesOf c tdArn))\<rparr>"

text \<open>
  The client that answers every failing call for a service, a batch or a task definition
  with the empty answer instead.
\<close>

definition absorbFailures :: "ECS \<Rightarrow> ECS" where
  "absorbFailures client =
     client\<lparr>ListTasks := (\<lambda>svcName. Inr (listedTasks client svcName)),
            DescribeTasks := (\<lambda>batch. Inr (answeredTasks client batch)),
            DescribeTaskDefinition := (\<lambda>tdArn. Inr (declaredImages client tdArn))\<rparr>"

section \<open>Example clusters\<close>

text \<open>
  The scenario of the specification: two services with one task each, both tasks
  running the same task definition, which declares two containers. The schedule lets
  the worker of the second service merge first.
\<close>

definition example_cluster :: Cluster where
  "example_cluster =
     \<lparr>tasksOf = (\<lambda>svcName. if svcName = ''svc-a'' then [''task-1'']
                           else if svcName = ''svc-b'' then [''task-2''] else []),
      definitionOf = (\<lambda>t. ''def-1''),
      imagesOf = (\<lambda>tdArn. if tdArn = ''def-1'' then [''repo/app:1'', ''repo/sidecar:1''] else [])\<rparr>"

definition example_client :: ECS where
  "example_client =
     truthfulClient [Inr [''arn:aws:ecs:us-east-1:1:service/prod/svc-a''],
                     Inr [''arn:aws:ecs:us-east-1:1:service/prod/svc-b'']] example_cluster"

definition example_schedule :: schedule where
  "example_schedule = \<lparr>listingOrder = [''svc-b'', ''svc-a''], mergeOrder = []\<rparr>"

text \<open>The schedule that proposes no order: the work is done in program order.\<close>

definition program_order :: schedule where
  "program_order = \<lparr>listingOrder = [], mergeOrder = []\<rparr>"

text \<open>A cluster in which the listing calls of two services return the same task.\<close>

definition shared_cluster :: Cluster where
  "shared_cluster =
     \<lparr>tasksOf = (\<lambda>svcName. if svcName = ''svc-a'' \<or> svcName = ''svc-b'' then [''task-1''] else []),
      definitionOf = (\<lambda>t. ''def-1''),
      imagesOf = (\<lambda>tdArn. if tdArn = ''def-1'' then [''repo/app:1''] else [])\<rparr>"

definition shared_client :: ECS where
  "shared_client =
     truthfulClient [Inr [''arn:aws:ecs:us-east-1:1:service/prod/svc-a'',
                          ''arn:aws:ecs:us-east-1:1:service/prod/svc-b'']] shared_cluster"

text \<open>
  A client whose bulk description also returns a task that no service listed, and whose
  task definition declares a container with the empty image URI.
\<close>

definition stray_client :: ECS where
  "stray_client =
     \<lparr>ListServicesPages = [Inr [''arn:aws:ecs:us-east-1:1:service/prod/svc-a'']],
      ListTasks = (\<lambda>svcName. Inr [''task-1'']),
      DescribeTasks = (\<lambda>batch. Inr [\<lparr>TaskArn = ''task-1'', TaskDefinitionArn = ''def-1''\<rparr>,
                                    \<lparr>TaskArn = ''task-9'', TaskDefinitionArn = ''def-1''\<rparr>]),
      DescribeTaskDefinition = (\<lambda>tdArn. Inr [''''])\<rparr>"

text \<open>
  A client for which listing the tasks of \<open>svc-b\<close> fails, a cluster without services and
  a cluster whose only service has no task.
\<close>

definition failing_client :: ECS where
  "failing_client =
     example_client\<lparr>ListTasks := (\<lambda>svcName. if svcName = ''svc-b'' then Inl ApiError
                                              else ListTasks example_client svcName)\<rparr>"

definition empty_client :: ECS where
  "empty_client = truthfulClient [Inr []] example_cluster"

definition idle_client :: ECS where
  "idle_client =
     truthfulClient [Inr [''arn:aws:ecs:us-east-1:1:service/prod/svc-idle'']] example_cluster"

text \<open>
  A cluster whose enumeration returns a service identifier that is empty, after the
  identifier of \<open>svc-a\<close>.
\<close>

definition unnamed_client :: ECS where
  "unnamed_client =
     truthfulClient [Inr [''arn:aws:ecs:us-east-1:1:service/prod/svc-a'', '''']] example_cluster"

text \<open>
  A cluster with more work than the pools take at once: seven services, of which
  \<open>svc-3\<close> cannot be listed, and three task definitions, of which \<open>def-2\<close> cannot be
  described and \<open>def-1\<close> has two containers; \<open>busy_owners\<close> gives the owners of the
  definitions.
\<close>

definition busy_client :: ECS where
  "busy_client =
     \<lparr>ListServicesPages = [Inr []],
      ListTasks = (\<lambda>svcName. if svcName = ''svc-3'' then Inl ApiError else Inr [''task-of-'' @ svcName]),
      DescribeTasks = (\<lambda>batch. Inr (map (\<lambda>t. \<lparr>TaskArn = t, TaskDefinitionArn = ''def-1''\<rparr>) batch)),
      DescribeTaskDefinition =
        (\<lambda>tdArn. if tdArn = ''def-2'' then Inl ApiError
                  else if tdArn = ''def-1'' then Inr [''repo/app:1'', ''repo/sidecar:1'']
                  else Inr [''repo/app:1''])\<rparr>"

definition busy_services :: "string list" where
  "busy_services = [''svc-1'', ''svc-2'', ''svc-3'', ''svc-4'', ''svc-5'', ''svc-6'', ''svc-7'']"

definition busy_definitions :: "string list" where
  "busy_definitions = [''def-1'', ''def-2'', ''def-3'']"

definition busy_owners :: "(string \<times> string list) list" where
  "busy_owners = [(''def-1'', [''svc-1'']), (''def-2'', [''svc-2'']), (''def-3'', [''svc-4'', ''svc-1''])]"

text \<open>
  Three states of the pools on this cluster. In the first the worker of \<open>svc-3\<close> has
  ended after its failed call, five workers are running, the channel is full and
  \<^verbatim>\<open>main\<close> waits at its send for \<open>svc-7\<close>. In the second the first pool has returned,
  the workers having ended in the order \<open>svc-3\<close>, \<open>svc-5\<close>, \<open>svc-7\<close>, \<open>svc-6\<close>, \<open>svc-4\<close>,
  \<open>svc-2\<close>, \<open>svc-1\<close>. In the third the second pool has returned, the workers having
  ended in the order \<open>def-3\<close>, \<open>def-2\<close>, \<open>def-1\<close>.
\<close>

definition busy_pool_full :: "(string, string, Listing) pool" where
  "busy_pool_full =
     \<lparr>pending = [''svc-7''], mainAt = AtSend, sem = 5, wg = 6,
      workers = {#(''svc-6'', AtCall), (''svc-5'', AtCall), (''svc-4'', AtCall), (''svc-2'', AtCall),
                  (''svc-1'', AtCall)#},
      bar = 1, attempted = [''svc-3''], completed = [''svc-3''], merged = [],
      shared = \<lparr>taskArns = [], taskToService = []\<rparr>\<rparr>"

definition busy_pool_end :: "(string, string, Listing) pool" where
  "busy_pool_end =
     \<lparr>pending = [], mainAt = Returned, sem = 0, wg = 0, workers = {#}, bar = 7,
      attempted = [''svc-3'', ''svc-5'', ''svc-7'', ''svc-6'', ''svc-4'', ''svc-2'', ''svc-1''],
      completed = [''svc-3'', ''svc-5'', ''svc-7'', ''svc-6'', ''svc-4'', ''svc-2'', ''svc-1''],
      merged = [''svc-5'', ''svc-7'', ''svc-6'', ''svc-4'', ''svc-2'', ''svc-1''],
      shared =
        \<lparr>taskArns = [''task-of-svc-5'', ''task-of-svc-7'', ''task-of-svc-6'', ''task-of-svc-4'',
                     ''task-of-svc-2'', ''task-of-svc-1''],
         taskToService = [(''task-of-svc-5'', ''svc-5''), (''task-of-svc-7'', ''svc-7''),
                          (''task-of-svc-6'', ''svc-6''), (''task-of-svc-4'', ''svc-4''),
                          (''task-of-svc-2'', ''svc-2''), (''task-of-svc-1'', ''svc-1'')]\<rparr>\<rparr>"

definition busy_image_end :: "(string, string \<times> string, (string \<times> string list) list) pool" where
  "busy_image_end =
     \<lparr>pending = [], mainAt = Returned, sem = 0, wg = 0, workers = {#}, bar = 3,
      attempted = [''def-3'', ''def-2'', ''def-1''],
      completed = [''def-3'', ''def-2'', ''def-1''],
      merged = [(''def-3'', ''repo/app:1''), (''def-1'', ''repo/app:1''), (''def-1'', ''repo/sidecar:1'')],
      shared = [(''repo/app:1'', [''svc-1'', ''svc-4'']), (''repo/sidecar:1'', [''svc-1''])]\<rparr>"

section \<open>Auxiliary functions of the proofs\<close>

text \<open>
  \<open>segs rest cur\<close> is the loop of \<open>splitArn\<close> without indices: \<open>rest\<close> is what remains to be
  read and \<open>cur\<close> the segment read since the last separator.
\<close>

fun segs :: "string \<Rightarrow> string \<Rightarrow> string list" where
  "segs [] cur = (if cur \<noteq> [] then [cur] else [])"
| "segs (c # cs) cur = (if c = CHR ''/'' then cur # segs cs [] else segs cs (cur @ [c]))"

definition dropLastEmpty :: "string list \<Rightarrow> string list" where
  "dropLastEmpty p = (if last p = [] then butlast p else p)"

text \<open>
  The owners that the program has to find: for a task definition, the services that
  the reverse index gives for the described tasks running it; for an image, the owners
  of the definitions merged into it. The two invariants say that the mappings hold
  exactly these owners, each once, and have exactly the expected keys.
\<close>

definition definitionOwners :: "(string \<times> string) list \<Rightarrow> Task list \<Rightarrow> string \<Rightarrow> string set" where
  "definitionOwners t2s tasks d =
     {mapIndex [] t2s (TaskArn task) | task. task \<in> set tasks \<and> TaskDefinitionArn task = d}"

definition ownershipInv :: "(string \<times> string) list \<Rightarrow> Task list \<Rightarrow> Ownership \<Rightarrow> bool" where
  "ownershipInv t2s tasks st \<longleftrightarrow>
     set (taskDefArns st) = TaskDefinitionArn ` set tasks \<and>
     distinct (taskDefArns st) \<and>
     distinct (map fst (taskDefToService st)) \<and>
     (\<forall>d. set (owners (taskDefToService st) d) = definitionOwners t2s tasks d \<and>
          distinct (owners (taskDefToService st) d) \<and>
          (hasKey (taskDefToService st) d \<longleftrightarrow> d \<in> TaskDefinitionArn ` set tasks))"

definition imageOwners :: "(string \<times> string list) list \<Rightarrow> (string \<times> string) list \<Rightarrow> string \<Rightarrow> string set" where
  "imageOwners td2s merges img = (\<Union>ev \<in> set merges. if snd ev = img then set (owners td2s (fst ev)) else {})"

definition imageInv :: "(string \<times> string list) list \<Rightarrow> (string \<times> string) list \<Rightarrow>
    (string \<times> string list) list \<Rightarrow> bool" where
  "imageInv td2s merges m \<longleftrightarrow>
     distinct (map fst m) \<and>
     (\<forall>img. set (owners m img) = imageOwners td2s merges img \<and>
              distinct (owners m img) \<and>
              (hasKey m img \<longleftrightarrow> img \<in> snd ` set merges))"

text \<open>
  For the pools: the items of the workers at given statements, the critical sections
  that a worker still has to run, the critical sections of an item, those that are still
  to come in a state, the invariant of the pool, and a bound on the number of steps that
  a state has left.
\<close>

fun beforeBar :: "'m workerpc \<Rightarrow> bool" where
  "beforeBar AtCall = True"
| "beforeBar (AtMerge ms) = True"
| "beforeBar AtBarAdd = True"
| "beforeBar pc = False"

definition itemsAt :: "('m workerpc \<Rightarrow> bool) \<Rightarrow> ('a \<times> 'm workerpc) multiset \<Rightarrow> 'a multiset" where
  "itemsAt P ws = image_mset fst (filter_mset (\<lambda>w. P (snd w)) ws)"

fun toMerge :: "'m workerpc \<Rightarrow> 'm list" where
  "toMerge (AtMerge ms) = ms"
| "toMerge pc = []"

definition sectionsOf :: "('a \<Rightarrow> api_error + 'm list) \<Rightarrow> 'a \<Rightarrow> 'm list" where
  "sectionsOf work x = (case work x of Inl err \<Rightarrow> [] | Inr ms \<Rightarrow> ms)"

definition openSections :: "('a \<Rightarrow> api_error + 'm list) \<Rightarrow> ('a, 'm, 's) pool \<Rightarrow> 'm multiset" where
  "openSections work p =
     mset (concat (map (sectionsOf work) (pending p))) +
     (\<Sum>w \<in># workers p. if snd w = AtCall then mset (sectionsOf work (fst w)) else mset (toMerge (snd w)))"

definition poolInv :: "('a \<Rightarrow> api_error + 'm list) \<Rightarrow> ('m \<Rightarrow> 's \<Rightarrow> 's) \<Rightarrow> 'a list \<Rightarrow> 's \<Rightarrow>
    ('a, 'm, 's) pool \<Rightarrow> bool" where
  "poolInv work merge items s0 p \<longleftrightarrow>
     sem p = running p + (if mainAt p = AtGo then 1 else 0) \<and>
     sem p \<le> limit \<and>
     wg p = size (workers p) + (if mainAt p = AtSend \<or> mainAt p = AtGo then 1 else 0) \<and>
     mset (attempted p) + itemsAt (\<lambda>pc. pc = AtCall) (workers p) + mset (pending p) = mset items \<and>
     mset (completed p) + itemsAt beforeBar (workers p) + mset (pending p) = mset items \<and>
     bar p = length (completed p) \<and>
     (mainAt p = AtSend \<or> mainAt p = AtGo \<longrightarrow> pending p \<noteq> []) \<and>
     (mainAt p = AtWait \<or> mainAt p = Returned \<longrightarrow> pending p = []) \<and>
     (mainAt p = Returned \<longrightarrow> workers p = {#}) \<and>
     shared p = fold merge (merged p) s0 \<and>
     mset (merged p) + openSections work p = mset (concat (map (sectionsOf work) items))"

fun workerWeight :: "('a \<Rightarrow> api_error + 'm list) \<Rightarrow> 'a \<times> 'm workerpc \<Rightarrow> nat" where
  "workerWeight work (x, AtCall) = length (sectionsOf work x) + 5"
| "workerWeight work (x, AtMerge ms) = length ms + 4"
| "workerWeight work (x, AtBarAdd) = 3"
| "workerWeight work (x, AtRelease) = 2"
| "workerWeight work (x, AtDone) = 1"

fun mainWeight :: "mainpc \<Rightarrow> nat" where
  "mainWeight AtAdd = 4"
| "mainWeight AtSend = 3"
| "mainWeight AtGo = 2"
| "mainWeight AtWait = 1"
| "mainWeight Returned = 0"

definition stepsLeft :: "('a \<Rightarrow> api_error + 'm list) \<Rightarrow> ('a, 'm, 's) pool \<Rightarrow> nat" where
  "stepsLeft work p =
     sum_list (map (\<lambda>x. length (sectionsOf work x) + 8) (pending p)) + mainWeight (mainAt p) +
     sum_mset (image_mset (workerWeight work) (workers p))"

text \<open>
  Two stretches of a run, for building runs: \<^verbatim>\<open>main\<close> takes the next item through
  \<^verbatim>\<open>wg.Add(1)\<close>, the send and the \<^verbatim>\<open>go\<close> statement; and the worker of an item runs
  from its call to \<^verbatim>\<open>wg.Done()\<close> without another worker in between.
\<close>

definition spawned :: "('a, 'm, 's) pool \<Rightarrow> ('a, 'm, 's) pool" where
  "spawned p =
     p\<lparr>wg := wg p + 1, sem := sem p + 1,
       workers := add_mset (hd (pending p), AtCall) (workers p), pending := tl (pending p)\<rparr>"

definition finished :: "('a \<Rightarrow> api_error + 'm list) \<Rightarrow> ('m \<Rightarrow> 's \<Rightarrow> 's) \<Rightarrow> 'a \<Rightarrow>
    ('a, 'm, 's) pool \<Rightarrow> ('a, 'm, 's) pool" where
  "finished work merge x p =
     p\<lparr>workers := workers p - {#(x, AtCall)#}, attempted := attempted p @ [x],
       merged := merged p @ sectionsOf work x, shared := fold merge (sectionsOf work x) (shared p),
       bar := bar p + 1, completed := completed p @ [x], sem := sem p - 1, wg := wg p - 1\<rparr>"

section \<open>The short name of a service\<close>

lemma slice_Suc:
  assumes "start \<le> i" "i < length arn"
  shows "slice arn start (Suc i) = slice arn start i @ [arn ! i]"
proof -
  have "Suc i - start = Suc (i - start)" using assms by (simp add: Suc_diff_le)
  moreover have "i - start < length (drop start arn)" using assms by simp
  moreover have "drop start arn ! (i - start) = arn ! i" using assms by simp
  ultimately show ?thesis unfolding slice_def by (simp add: take_Suc_conv_app_nth)
qed

lemma splitArn_loop_segs:
  "start \<le> i \<Longrightarrow> i \<le> length arn \<Longrightarrow>
   splitArn_loop arn i start out = out @ segs (drop i arn) (slice arn start i)"
proof (induction arn i start out rule: splitArn_loop.induct)
  case (1 arn i start out)
  show ?case
  proof (cases "i < length arn")
    case True
    then have d: "drop i arn = arn ! i # drop (Suc i) arn"
      by (simp add: Cons_nth_drop_Suc)
    show ?thesis
    proof (cases "arn ! i = CHR ''/''")
      case slash: True
      have "splitArn_loop arn i start out = splitArn_loop arn (i + 1) (i + 1) (out @ [slice arn start i])"
        using True slash by (subst splitArn_loop.simps) simp
      also have "\<dots> = (out @ [slice arn start i]) @ segs (drop (i + 1) arn) (slice arn (i + 1) (i + 1))"
        using "1.IH"(1)[OF True slash] True by simp
      finally show ?thesis using d slash by (simp add: slice_def)
    next
      case other: False
      have "splitArn_loop arn i start out = splitArn_loop arn (i + 1) start out"
        using True other by (subst splitArn_loop.simps) simp
      also have "\<dots> = out @ segs (drop (i + 1) arn) (slice arn start (i + 1))"
        using "1.IH"(2)[OF True other] True "1.prems" by simp
      finally show ?thesis using d other slice_Suc[OF "1.prems"(1) True] by simp
    qed
  next
    case False
    with "1.prems" have e: "i = length arn" by simp
    have "slice arn start (length arn) \<noteq> [] \<longleftrightarrow> start < length arn"
      by (auto simp: slice_def)
    then show ?thesis using e by (subst splitArn_loop.simps) simp
  qed
qed

lemma splitArn_segs: "splitArn arn = segs arn []"
  by (simp add: splitArn_def splitArn_loop_segs slice_def)

lemma split_slash_nonempty: "split_slash s \<noteq> []"
  by (induction s) (auto split: list.splits)

lemma segs_split_slash:
  "segs s cur = dropLastEmpty ((cur @ hd (split_slash s)) # tl (split_slash s))"
proof (induction s arbitrary: cur)
  case Nil
  show ?case by (simp add: dropLastEmpty_def)
next
  case (Cons c cs)
  obtain h t where ht: "split_slash cs = h # t"
    using split_slash_nonempty[of cs] by (cases "split_slash cs") auto
  show ?case
  proof (cases "c = CHR ''/''")
    case True
    have "segs cs [] = dropLastEmpty (h # t)" using Cons.IH[of "[]"] ht by simp
    then show ?thesis using True ht by (simp add: dropLastEmpty_def)
  next
    case False
    then show ?thesis using Cons.IH[of "cur @ [c]"] ht by simp
  qed
qed

lemma splitArn_split_slash: "splitArn arn = dropLastEmpty (split_slash arn)"
  using segs_split_slash[of arn "[]"] split_slash_nonempty[of arn]
  by (simp add: splitArn_segs)

lemma filter_dropLastEmpty:
  "p \<noteq> [] \<Longrightarrow> filter (\<lambda>s. s \<noteq> []) (dropLastEmpty p) = filter (\<lambda>s. s \<noteq> []) p"
proof -
  assume "p \<noteq> []"
  then have "p = butlast p @ [last p]" by simp
  then have "filter (\<lambda>s. s \<noteq> []) p = filter (\<lambda>s. s \<noteq> []) (butlast p) @ filter (\<lambda>s. s \<noteq> []) [last p]"
    by (metis filter_append)
  then show ?thesis by (simp add: dropLastEmpty_def)
qed

lemma last_nonempty_segment_splitArn:
  "last_nonempty_segment arn =
     (case filter (\<lambda>s. s \<noteq> []) (splitArn arn) of [] \<Rightarrow> None | s # ss \<Rightarrow> Some (last (s # ss)))"
  by (simp add: last_nonempty_segment_def splitArn_split_slash filter_dropLastEmpty split_slash_nonempty)

lemma split_slash_snoc_slash: "split_slash (b @ ''/'') = split_slash b @ [[]]"
  by (induction b) (auto split: list.splits simp: split_slash_nonempty)

lemma split_slash_snoc_other:
  "c \<noteq> CHR ''/'' \<Longrightarrow>
   split_slash (b @ [c]) = butlast (split_slash b) @ [last (split_slash b) @ [c]]"
  by (induction b) (auto split: list.splits simp: split_slash_nonempty)

lemma last_split_slash_empty:
  "last (split_slash s) = [] \<longleftrightarrow> s = [] \<or> last s = CHR ''/''"
proof (cases s rule: rev_cases)
  case Nil
  then show ?thesis by simp
next
  case (snoc b c)
  then show ?thesis
    by (cases "c = CHR ''/''") (simp_all add: split_slash_snoc_slash split_slash_snoc_other)
qed

lemma splitArn_Nil: "splitArn arn = [] \<longleftrightarrow> arn = []"
proof
  assume e: "splitArn arn = []"
  show "arn = []"
  proof (rule ccontr)
    assume ne: "arn \<noteq> []"
    then obtain b c where bc: "arn = b @ [c]" by (metis rev_exhaust)
    show False
    proof (cases "c = CHR ''/''")
      case True
      then have "splitArn arn = dropLastEmpty (split_slash b @ [[]])"
        using bc by (simp add: splitArn_split_slash split_slash_snoc_slash)
      then show False using e split_slash_nonempty[of b] by (simp add: dropLastEmpty_def)
    next
      case False
      then have "last (split_slash arn) \<noteq> []" using bc by (simp add: last_split_slash_empty)
      then show False using e split_slash_nonempty[of arn]
        by (simp add: splitArn_split_slash dropLastEmpty_def)
    qed
  qed
next
  assume "arn = []" then show "splitArn arn = []" by (simp add: splitArn_segs)
qed

lemma last_splitArn_empty:
  "arn \<noteq> [] \<Longrightarrow> last (splitArn arn) = [] \<longleftrightarrow> arn = ''/'' \<or> suffix ''//'' arn"
proof -
  assume ne: "arn \<noteq> []"
  then obtain b c where bc: "arn = b @ [c]" by (metis rev_exhaust)
  show ?thesis
  proof (cases "c = CHR ''/''")
    case True
    then have s: "splitArn arn = split_slash b"
      using bc by (simp add: splitArn_split_slash split_slash_snoc_slash dropLastEmpty_def)
    have "last (split_slash b) = [] \<longleftrightarrow> b = [] \<or> last b = CHR ''/''"
      by (rule last_split_slash_empty)
    moreover have "suffix ''//'' arn \<longleftrightarrow> b \<noteq> [] \<and> last b = CHR ''/''"
    proof
      assume "suffix ''//'' arn"
      then obtain z where "arn = z @ ''//''" by (auto simp: suffix_def)
      then have "b = z @ ''/''" using bc by simp
      then show "b \<noteq> [] \<and> last b = CHR ''/''" by simp
    next
      assume a: "b \<noteq> [] \<and> last b = CHR ''/''"
      then have "b = butlast b @ ''/''" by (metis append_butlast_last_id)
      then have "arn = butlast b @ ''//''" using bc True by simp
      then show "suffix ''//'' arn" by (metis suffixI)
    qed
    moreover have "arn = ''/'' \<longleftrightarrow> b = []" using bc True by auto
    ultimately show ?thesis using s by auto
  next
    case False
    then have l: "last (split_slash arn) \<noteq> []" using bc by (simp add: last_split_slash_empty)
    then have "last (splitArn arn) \<noteq> []" by (simp add: splitArn_split_slash dropLastEmpty_def)
    moreover have "\<not> suffix ''//'' arn" using bc False by (auto simp: suffix_def)
    moreover have "arn \<noteq> ''/''" using bc False by auto
    ultimately show ?thesis by simp
  qed
qed

lemma shortName_eq: "shortName arn = (if arn = [] then Inl IndexOutOfRange else Inr (last (splitArn arn)))"
  by (simp add: shortName_def lastPart_def splitArn_Nil last_conv_nth)

lemma last_filter_last: "xs \<noteq> [] \<Longrightarrow> P (last xs) \<Longrightarrow> filter P xs \<noteq> [] \<and> last (filter P xs) = last xs"
  by (induction xs) (auto split: if_splits)

lemma last_filter_sat: "filter P xs \<noteq> [] \<Longrightarrow> P (last (filter P xs))"
  by (metis last_in_set mem_Collect_eq set_filter)

text \<open>
  C5, as amended. The short name that the program derives is the last non-empty segment
  of the identifier split on \<open>/\<close> exactly for the identifiers that are not empty, are
  not \<open>/\<close> and do not end in \<open>//\<close>. (For a non-empty identifier the program takes the
  last segment after dropping one empty segment at the end, and does not look further
  back for a non-empty one.)
\<close>

theorem shortName_last_nonempty_segment:
  "(last_nonempty_segment arn \<noteq> None \<and> shortName arn = Inr (the (last_nonempty_segment arn)))
   \<longleftrightarrow> (arn \<noteq> [] \<and> arn \<noteq> ''/'' \<and> \<not> suffix ''//'' arn)"
proof (cases "arn = []")
  case True
  then show ?thesis by (simp add: shortName_eq)
next
  case False
  let ?f = "filter (\<lambda>s. s \<noteq> []) (splitArn arn)"
  have ne: "splitArn arn \<noteq> []" using False by (simp add: splitArn_Nil)
  show ?thesis
  proof (cases "last (splitArn arn) = []")
    case True
    have "\<not> (last_nonempty_segment arn \<noteq> None \<and> shortName arn = Inr (the (last_nonempty_segment arn)))"
    proof
      assume a: "last_nonempty_segment arn \<noteq> None \<and> shortName arn = Inr (the (last_nonempty_segment arn))"
      then have fne: "?f \<noteq> []" by (auto simp: last_nonempty_segment_splitArn split: list.splits)
      then have "the (last_nonempty_segment arn) = last ?f"
        by (auto simp: last_nonempty_segment_splitArn split: list.splits)
      moreover have "last ?f \<noteq> []" using last_filter_sat[OF fne] .
      ultimately show False using a True False by (simp add: shortName_eq)
    qed
    then show ?thesis using True False last_splitArn_empty[OF False] by blast
  next
    case nonempty: False
    have "?f \<noteq> [] \<and> last ?f = last (splitArn arn)"
      using last_filter_last[OF ne, of "\<lambda>s. s \<noteq> []"] nonempty by simp
    then have "last_nonempty_segment arn = Some (last (splitArn arn))"
      by (auto simp: last_nonempty_segment_splitArn split: list.splits)
    then show ?thesis using nonempty False last_splitArn_empty[OF False] by (simp add: shortName_eq)
  qed
qed

theorem shortName_last_nonempty_segment_witness:
  "last_nonempty_segment ''arn:aws:ecs:us-east-1:1:service/prod/web'' \<noteq> None \<and>
   shortName ''arn:aws:ecs:us-east-1:1:service/prod/web'' =
     Inr (the (last_nonempty_segment ''arn:aws:ecs:us-east-1:1:service/prod/web''))"
  using shortName_last_nonempty_segment[of "''arn:aws:ecs:us-east-1:1:service/prod/web''"]
  by (simp add: suffix_def)

text \<open>
  C5 as stated fails: for the identifier \<open>svc//\<close> the split gives the segments \<open>svc\<close>,
  empty, empty, whose last non-empty one is \<open>svc\<close>, and the program derives the empty
  name.
\<close>

theorem shortName_last_nonempty_segment_counterexample:
  "shortName ''svc//'' = Inr [] \<and> last_nonempty_segment ''svc//'' = Some ''svc''"
  by (simp add: shortName_def splitArn_segs lastPart_def last_nonempty_segment_def)

text \<open>
  C9. The derivation of the short name is not total: the program panics on the empty
  identifier and on no other, because \<open>splitArn\<close> returns no segment for it and the
  index \<open>len(parts)-1\<close> is \<open>-1\<close>; and it derives the empty short name, which is no
  segment name, exactly for the identifier \<open>/\<close> and the identifiers that end in \<open>//\<close>.
  A run whose enumeration returns the empty identifier ends in the panic.
\<close>

theorem shortName_partial:
  "splitArn [] = [] \<and>
   (shortName arn = Inl IndexOutOfRange \<longleftrightarrow> arn = []) \<and>
   splitArn ''/'' = [[]] \<and>
   (shortName arn = Inr [] \<longleftrightarrow> arn = ''/'' \<or> suffix ''//'' arn) \<and>
   status (main ''prod'' (Inr \<lparr>ListServicesPages = [Inr [[]]], ListTasks = lt,
       DescribeTasks = dt, DescribeTaskDefinition = dd\<rparr>) sched) = Panicked IndexOutOfRange"
proof -
  have "shortName arn = Inr [] \<longleftrightarrow> arn = ''/'' \<or> suffix ''//'' arn"
  proof (cases "arn = []")
    case True
    then show ?thesis by (simp add: shortName_eq suffix_def)
  next
    case False
    then show ?thesis using last_splitArn_empty[OF False] by (simp add: shortName_eq)
  qed
  moreover have "status (main ''prod'' (Inr \<lparr>ListServicesPages = [Inr [[]]], ListTasks = lt,
       DescribeTasks = dt, DescribeTaskDefinition = dd\<rparr>) sched) = Panicked IndexOutOfRange"
    by (simp add: main_def serviceStage_def lastPart_def splitArn_segs)
  ultimately show ?thesis by (simp add: shortName_eq splitArn_segs)
qed

section \<open>Batches of task identifiers\<close>

lemma chunks_Nil: "chunks [] = []"
  by (subst chunks.simps) simp

lemma chunks_Cons: "xs \<noteq> [] \<Longrightarrow> chunks xs = take 100 xs # chunks (drop 100 xs)"
  by (subst chunks.simps) simp

lemma concat_chunks: "concat (chunks xs) = xs"
proof (induction xs rule: chunks.induct)
  case (1 xs)
  then show ?case by (cases "xs = []") (simp_all add: chunks_Nil chunks_Cons)
qed

lemma ceil_step: "0 < (n::nat) \<Longrightarrow> Suc ((n - 100 + 99) div 100) = (n + 99) div 100"
proof (cases "100 \<le> n")
  case True
  then obtain m where m: "n = m + 100" by (metis le_add_diff_inverse2)
  have "(m + 99 + 100) div 100 = Suc ((m + 99) div 100)" by simp
  then show ?thesis using m by (simp add: add.commute add.left_commute)
next
  case False
  assume "0 < n"
  with False have "(n + 99) div 100 = 1" by (intro div_nat_eqI) simp_all
  moreover have "n - 100 = 0" using False by simp
  ultimately show ?thesis by simp
qed

lemma length_chunks: "length (chunks xs) = (length xs + 99) div 100"
proof (induction xs rule: chunks.induct)
  case (1 xs)
  show ?case
  proof (cases "xs = []")
    case True
    then show ?thesis by (simp add: chunks_Nil)
  next
    case False
    then have pos: "0 < length xs" by simp
    have "length (chunks xs) = Suc ((length xs - 100 + 99) div 100)"
      using 1 False by (simp add: chunks_Cons)
    also have "\<dots> = (length xs + 99) div 100"
      using pos by (rule ceil_step)
    finally show ?thesis .
  qed
qed

lemma chunks_size: "b \<in> set (chunks xs) \<Longrightarrow> 0 < length b \<and> length b \<le> 100"
proof (induction xs rule: chunks.induct)
  case (1 xs)
  then show ?case by (cases "xs = []") (auto simp: chunks_Nil chunks_Cons)
qed

lemma chunks_full: "b \<in> set (butlast (chunks xs)) \<Longrightarrow> length b = 100"
proof (induction xs rule: chunks.induct)
  case (1 xs)
  show ?case
  proof (cases "xs = []")
    case True
    with 1 show ?thesis by (simp add: chunks_Nil)
  next
    case False
    show ?thesis
    proof (cases "chunks (drop 100 xs) = []")
      case True
      with 1 False show ?thesis by (simp add: chunks_Cons)
    next
      case rest: False
      then have "drop 100 xs \<noteq> []" using chunks_Nil by metis
      then have "length (take 100 xs) = 100" by simp
      with 1 False rest show ?thesis by (auto simp: chunks_Cons)
    qed
  qed
qed

lemma describeCalls_recordTask: "describeCalls (recordTask t2s task st) = describeCalls st"
  by (simp add: recordTask_def Let_def)

lemma describeCalls_fold_recordTask:
  "describeCalls (fold (recordTask t2s) tasks st) = describeCalls st"
  by (induction tasks arbitrary: st) (simp_all add: describeCalls_recordTask)

lemma describeCalls_describeBatch:
  "describeCalls (describeBatch client t2s batch st) = describeCalls st @ [batch]"
  by (simp add: describeBatch_def Let_def describeCalls_fold_recordTask split: sum.splits)

lemma batch_slice:
  "i < length arns \<Longrightarrow>
   slice arns i (if i + 100 > length arns then length arns else i + 100) = take 100 (drop i arns)"
  by (simp add: slice_def)

lemma describeLoop_unfold:
  "i < length arns \<Longrightarrow> describeLoop client t2s arns i st =
     describeLoop client t2s arns (i + 100) (describeBatch client t2s (take 100 (drop i arns)) st)"
  by (subst describeLoop.simps) (simp add: batch_slice Let_def del: One_nat_def)

lemma describeLoop_exit: "\<not> i < length arns \<Longrightarrow> describeLoop client t2s arns i st = st"
  by (subst describeLoop.simps) simp

lemma describeCalls_describeLoop:
  "describeCalls (describeLoop client t2s arns i st) = describeCalls st @ chunks (drop i arns)"
proof (induction client t2s arns i st rule: describeLoop.induct)
  case (1 client t2s arns i st)
  show ?case
  proof (cases "i < length arns")
    case True
    then have ne: "drop i arns \<noteq> []" by simp
    have d: "drop (i + 100) arns = drop 100 (drop i arns)" by (simp add: add.commute)
    have "describeCalls (describeLoop client t2s arns i st) =
          describeCalls (describeBatch client t2s (take 100 (drop i arns)) st) @ chunks (drop (i + 100) arns)"
      using "1.IH"[OF True refl] True by (simp add: describeLoop_unfold batch_slice)
    then show ?thesis by (simp add: describeCalls_describeBatch chunks_Cons[OF ne] d)
  next
    case False
    then show ?thesis by (simp add: describeLoop_exit chunks_Nil)
  qed
qed

text \<open>
  C3. The batches for which the bulk description is called: there are
  \<open>\<lceil>L / 100\<rceil>\<close> of them for a task list of length \<open>L\<close>, each holds between 1 and 100
  identifiers, every batch but the last holds exactly 100, and the batches put one
  after the other are the task list.
\<close>

theorem describeCalls_partition:
  "length (describeCalls (describeAllTasks client l)) = (length (taskArns l) + 99) div 100 \<and>
   (\<forall>b \<in> set (describeCalls (describeAllTasks client l)). 0 < length b \<and> length b \<le> 100) \<and>
   (\<forall>b \<in> set (butlast (describeCalls (describeAllTasks client l))). length b = 100) \<and>
   concat (describeCalls (describeAllTasks client l)) = taskArns l"
proof -
  have c: "describeCalls (describeAllTasks client l) = chunks (taskArns l)"
    by (simp add: describeAllTasks_def describeCalls_describeLoop)
  have "\<forall>b \<in> set (chunks (taskArns l)). 0 < length b \<and> length b \<le> 100"
    using chunks_size by blast
  moreover have "\<forall>b \<in> set (butlast (chunks (taskArns l))). length b = 100"
    using chunks_full by blast
  ultimately show ?thesis
    unfolding c using length_chunks[of "taskArns l"] concat_chunks[of "taskArns l"] by blast
qed

text \<open>
  An instance of C3: a list of 250 task identifiers is described in three batches.
\<close>

theorem describeCalls_partition_witness:
  "length (describeCalls (describeAllTasks example_client
     \<lparr>taskArns = replicate 250 ''task-1'', taskToService = [(''task-1'', ''svc-a'')]\<rparr>)) = 3 \<and>
   concat (describeCalls (describeAllTasks example_client
     \<lparr>taskArns = replicate 250 ''task-1'', taskToService = [(''task-1'', ''svc-a'')]\<rparr>)) =
     replicate 250 ''task-1''"
  using describeCalls_partition[of example_client
      "\<lparr>taskArns = replicate 250 ''task-1'', taskToService = [(''task-1'', ''svc-a'')]\<rparr>"]
  by simp

section \<open>The task list and the reverse index\<close>

lemma map_of_fold_update:
  "map_of (fold (\<lambda>t m. AList.update t svc m) arns m0) t =
     (if t \<in> set arns then Some svc else map_of m0 t)"
  by (induction arns arbitrary: m0) (simp_all add: update_conv')

lemma distinct_fold_update:
  "distinct (map fst m0) \<Longrightarrow> distinct (map fst (fold (\<lambda>t m. AList.update t svc m) arns m0))"
  by (induction arns arbitrary: m0) (simp_all add: distinct_update)

lemma taskArns_listTasksWorker:
  "taskArns (listTasksWorker client svc st) = taskArns st @ listedTasks client svc"
  by (simp add: listTasksWorker_def listedTasks_def split: sum.splits)

lemma taskToService_listTasksWorker:
  "map_of (taskToService (listTasksWorker client svc st)) t =
     (if t \<in> set (listedTasks client svc) then Some svc else map_of (taskToService st) t)"
  by (simp add: listTasksWorker_def listedTasks_def map_of_fold_update split: sum.splits)

lemma taskArns_fold:
  "taskArns (fold (listTasksWorker client) order st) =
     taskArns st @ concat (map (listedTasks client) order)"
  by (induction order arbitrary: st) (simp_all add: taskArns_listTasksWorker)

lemma taskArns_listAllTasks:
  "taskArns (listAllTasks client order) = concat (map (listedTasks client) order)"
  by (simp add: listAllTasks_def taskArns_fold)

lemma taskToService_fold_Some:
  "map_of (taskToService (fold (listTasksWorker client) order st)) t = Some svc \<Longrightarrow>
   map_of (taskToService st) t = Some svc \<or> (svc \<in> set order \<and> t \<in> set (listedTasks client svc))"
proof (induction order arbitrary: st)
  case Nil
  then show ?case by simp
next
  case (Cons s order)
  from Cons.IH[of "listTasksWorker client s st"] Cons.prems
  show ?case by (auto simp: taskToService_listTasksWorker split: if_splits)
qed

lemma taskToService_fold_dom:
  "map_of (taskToService (fold (listTasksWorker client) order st)) t = None \<longleftrightarrow>
   map_of (taskToService st) t = None \<and> (\<forall>svc \<in> set order. t \<notin> set (listedTasks client svc))"
  by (induction order arbitrary: st) (auto simp: taskToService_listTasksWorker)

lemma taskToService_listAllTasks_Some:
  "map_of (taskToService (listAllTasks client order)) t = Some svc \<Longrightarrow>
   svc \<in> set order \<and> t \<in> set (listedTasks client svc)"
  using taskToService_fold_Some[of client order "\<lparr>taskArns = [], taskToService = []\<rparr>" t svc]
  by (simp add: listAllTasks_def)

lemma taskToService_listAllTasks_None:
  "map_of (taskToService (listAllTasks client order)) t = None \<longleftrightarrow>
   (\<forall>svc \<in> set order. t \<notin> set (listedTasks client svc))"
  by (simp add: listAllTasks_def taskToService_fold_dom)

lemma reverse_index_unique:
  assumes "svc \<in> set order" "t \<in> set (listedTasks client svc)"
    and "\<forall>other \<in> set order. other \<noteq> svc \<longrightarrow> t \<notin> set (listedTasks client other)"
  shows "mapIndex [] (taskToService (listAllTasks client order)) t = svc"
proof -
  have "map_of (taskToService (listAllTasks client order)) t \<noteq> None"
    using assms(1,2) by (auto simp: taskToService_listAllTasks_None)
  then obtain s where s: "map_of (taskToService (listAllTasks client order)) t = Some s" by auto
  from taskToService_listAllTasks_Some[OF s] assms(3) have "s = svc" by auto
  with s show ?thesis by (simp add: mapIndex_def)
qed

lemma reverse_index_range:
  "mapIndex [] (taskToService (listAllTasks client order)) t \<in> insert [] (set order)"
  using taskToService_listAllTasks_Some[of client order t]
  by (auto simp: mapIndex_def split: option.splits)

section \<open>Maps and sets as lists\<close>

lemma set_fold_insert: "set (fold List.insert xs ys) = set xs \<union> set ys"
  by (induction xs arbitrary: ys) auto

lemma distinct_fold_insert: "distinct ys \<Longrightarrow> distinct (fold List.insert xs ys)"
  by (induction xs arbitrary: ys) auto

lemma mapIndex_update:
  "mapIndex z (AList.update k v m) k' = (if k' = k then v else mapIndex z m k')"
  by (simp add: mapIndex_def update_conv')

lemma hasKey_update: "hasKey (AList.update k v m) k' \<longleftrightarrow> k' = k \<or> hasKey m k'"
  by (simp add: hasKey_def update_conv')

lemma hasKey_mapIndex: "\<not> hasKey m k \<Longrightarrow> mapIndex z m k = z"
  by (simp add: hasKey_def mapIndex_def)

lemma hasKey_dom: "hasKey m k \<longleftrightarrow> k \<in> fst ` set m"
  by (simp add: hasKey_def map_of_eq_None_iff)

lemma entry_mapIndex:
  assumes "distinct (map fst m)"
  shows "(k, v) \<in> set m \<longleftrightarrow> hasKey m k \<and> mapIndex z m k = v"
proof -
  have "(k, v) \<in> set m \<longleftrightarrow> map_of m k = Some v" using assms by simp
  then show ?thesis by (cases "map_of m k") (simp_all add: hasKey_def mapIndex_def)
qed

section \<open>The owners of task definitions\<close>

lemma definitionOwners_snoc:
  "definitionOwners t2s (tasks @ [task]) d =
     (if TaskDefinitionArn task = d then insert (mapIndex [] t2s (TaskArn task)) (definitionOwners t2s tasks d)
      else definitionOwners t2s tasks d)"
  by (auto simp: definitionOwners_def)

lemma definitionOwners_append:
  "definitionOwners t2s (xs @ ys) d = definitionOwners t2s xs d \<union> definitionOwners t2s ys d"
  by (auto simp: definitionOwners_def)

lemma taskDefToService_recordTask:
  "taskDefToService (recordTask t2s task st) =
     AList.update (TaskDefinitionArn task)
       (List.insert (mapIndex [] t2s (TaskArn task))
          (mapIndex [] (taskDefToService st) (TaskDefinitionArn task)))
       (if \<not> hasKey (taskDefToService st) (TaskDefinitionArn task)
        then AList.update (TaskDefinitionArn task) [] (taskDefToService st)
        else taskDefToService st)"
  by (simp add: recordTask_def Let_def mapIndex_update hasKey_mapIndex)

lemma taskDefArns_recordTask:
  "taskDefArns (recordTask t2s task st) = List.insert (TaskDefinitionArn task) (taskDefArns st)"
  by (simp add: recordTask_def Let_def)

lemma ownershipInv_recordTask:
  assumes "ownershipInv t2s tasks st"
  shows "ownershipInv t2s (tasks @ [task]) (recordTask t2s task st)"
proof -
  let ?d = "TaskDefinitionArn task"
  let ?m = "taskDefToService st"
  have keys: "distinct (map fst (taskDefToService (recordTask t2s task st)))"
    using assms by (simp add: taskDefToService_recordTask ownershipInv_def distinct_update)
  have own: "owners (taskDefToService (recordTask t2s task st)) d =
      (if d = ?d then List.insert (mapIndex [] t2s (TaskArn task)) (owners ?m ?d) else owners ?m d)" for d
    by (simp add: taskDefToService_recordTask owners_def mapIndex_update)
  have key: "hasKey (taskDefToService (recordTask t2s task st)) d \<longleftrightarrow> d = ?d \<or> hasKey ?m d" for d
    by (auto simp: taskDefToService_recordTask hasKey_update)
  show ?thesis
    unfolding ownershipInv_def
  proof (intro conjI allI)
    show "set (taskDefArns (recordTask t2s task st)) = TaskDefinitionArn ` set (tasks @ [task])"
      using assms by (auto simp: taskDefArns_recordTask ownershipInv_def)
    show "distinct (taskDefArns (recordTask t2s task st))"
      using assms by (simp add: taskDefArns_recordTask ownershipInv_def)
    show "distinct (map fst (taskDefToService (recordTask t2s task st)))" by (rule keys)
  next
    fix d
    show "set (owners (taskDefToService (recordTask t2s task st)) d) = definitionOwners t2s (tasks @ [task]) d"
      using assms by (auto simp: own definitionOwners_snoc ownershipInv_def)
    show "distinct (owners (taskDefToService (recordTask t2s task st)) d)"
      using assms by (simp add: own ownershipInv_def)
    show "hasKey (taskDefToService (recordTask t2s task st)) d \<longleftrightarrow> d \<in> TaskDefinitionArn ` set (tasks @ [task])"
      using assms by (auto simp: key ownershipInv_def)
  qed
qed

lemma ownershipInv_fold:
  "ownershipInv t2s tasks st \<Longrightarrow> ownershipInv t2s (tasks @ rest) (fold (recordTask t2s) rest st)"
proof (induction rest arbitrary: tasks st)
  case Nil
  then show ?case by simp
next
  case (Cons task rest)
  from Cons.IH[OF ownershipInv_recordTask[OF Cons.prems, of task]]
  show ?case by simp
qed

lemma ownershipInv_describeCalls:
  "ownershipInv t2s tasks (st\<lparr>describeCalls := c\<rparr>) = ownershipInv t2s tasks st"
  by (simp add: ownershipInv_def)

lemma ownershipInv_describeBatch:
  "ownershipInv t2s tasks st \<Longrightarrow>
   ownershipInv t2s (tasks @ answeredTasks client batch) (describeBatch client t2s batch st)"
  using ownershipInv_fold[of t2s tasks "st\<lparr>describeCalls := describeCalls st @ [batch]\<rparr>"]
  by (auto simp: describeBatch_def answeredTasks_def Let_def ownershipInv_describeCalls split: sum.splits)

lemma ownershipInv_describeLoop:
  "ownershipInv t2s tasks st \<Longrightarrow>
   ownershipInv t2s (tasks @ describedTasks client (drop i arns)) (describeLoop client t2s arns i st)"
proof (induction client t2s arns i st arbitrary: tasks rule: describeLoop.induct)
  case (1 client t2s arns i st)
  show ?case
  proof (cases "i < length arns")
    case True
    then have ne: "drop i arns \<noteq> []" by simp
    have d: "drop (i + 100) arns = drop 100 (drop i arns)" by (simp add: add.commute)
    have "ownershipInv t2s ((tasks @ answeredTasks client (take 100 (drop i arns))) @
            describedTasks client (drop (i + 100) arns))
          (describeLoop client t2s arns (i + 100) (describeBatch client t2s (take 100 (drop i arns)) st))"
      using "1.IH"[OF True refl, of "tasks @ answeredTasks client (take 100 (drop i arns))"]
        ownershipInv_describeBatch[OF "1.prems"] True
      by (simp add: batch_slice)
    then show ?thesis
      by (simp add: describeLoop_unfold[OF True] describedTasks_def chunks_Cons[OF ne] d)
  next
    case False
    then show ?thesis using "1.prems"
      by (simp add: describeLoop_exit describedTasks_def chunks_Nil)
  qed
qed

lemma ownershipInv_describeAllTasks:
  "ownershipInv (taskToService l) (describedTasks client (taskArns l)) (describeAllTasks client l)"
proof -
  have "ownershipInv (taskToService l) [] \<lparr>describeCalls = [], taskDefArns = [], taskDefToService = []\<rparr>"
    by (simp add: ownershipInv_def owners_def mapIndex_def hasKey_def definitionOwners_def)
  from ownershipInv_describeLoop[OF this, of client 0 "taskArns l"]
  show ?thesis by (simp add: describeAllTasks_def)
qed

section \<open>The owners of images\<close>

lemma inner_merge:
  "hasKey m img \<Longrightarrow>
   map_of (fold (\<lambda>svc m. AList.update img (List.insert svc (mapIndex [] m img)) m) services m) =
     (map_of m)(img \<mapsto> fold List.insert services (mapIndex [] m img))"
proof (induction services arbitrary: m)
  case Nil
  then show ?case by (auto simp: hasKey_def mapIndex_def fun_eq_iff)
next
  case (Cons svc services)
  have "hasKey (AList.update img (List.insert svc (mapIndex [] m img)) m) img"
    by (simp add: hasKey_update)
  from Cons.IH[OF this] show ?case by (auto simp: update_conv' mapIndex_update fun_eq_iff)
qed

lemma inner_merge_keys:
  "distinct (map fst m) \<Longrightarrow>
   distinct (map fst (fold (\<lambda>svc m. AList.update img (List.insert svc (mapIndex [] m img)) m) services m))"
  by (induction services arbitrary: m) (simp_all add: distinct_update)

lemma map_of_mergeImage:
  "map_of (mergeImage td2s (td, img) m) =
     (map_of m)(img \<mapsto> fold List.insert (owners td2s td) (owners m img))"
proof (cases "hasKey m img")
  case True
  then show ?thesis by (simp add: mergeImage_def Let_def inner_merge owners_def)
next
  case False
  then have "hasKey (AList.update img [] m) img" by (simp add: hasKey_update)
  from inner_merge[OF this, of "owners td2s td"] False
  show ?thesis
    by (simp add: mergeImage_def Let_def owners_def mapIndex_update update_conv' hasKey_mapIndex)
qed

lemma distinct_mergeImage:
  "distinct (map fst m) \<Longrightarrow> distinct (map fst (mergeImage td2s ev m))"
  by (simp add: mergeImage_def Let_def inner_merge_keys distinct_update)

lemma imageOwners_snoc:
  "imageOwners td2s (merges @ [(td, img)]) i =
     (if i = img then imageOwners td2s merges i \<union> set (owners td2s td) else imageOwners td2s merges i)"
  by (auto simp: imageOwners_def)

lemma imageInv_mergeImage:
  assumes "imageInv td2s merges m"
  shows "imageInv td2s (merges @ [(td, img)]) (mergeImage td2s (td, img) m)"
proof -
  have own: "owners (mergeImage td2s (td, img) m) i =
      (if i = img then fold List.insert (owners td2s td) (owners m img) else owners m i)" for i
    by (simp add: owners_def mapIndex_def map_of_mergeImage)
  have key: "hasKey (mergeImage td2s (td, img) m) i \<longleftrightarrow> i = img \<or> hasKey m i" for i
    by (simp add: hasKey_def map_of_mergeImage)
  show ?thesis
    unfolding imageInv_def
  proof (intro conjI allI)
    show "distinct (map fst (mergeImage td2s (td, img) m))"
      using assms by (simp add: imageInv_def distinct_mergeImage)
  next
    fix i
    show "set (owners (mergeImage td2s (td, img) m) i) = imageOwners td2s (merges @ [(td, img)]) i"
      using assms by (auto simp: own imageOwners_snoc set_fold_insert imageInv_def)
    show "distinct (owners (mergeImage td2s (td, img) m) i)"
      using assms by (simp add: own distinct_fold_insert imageInv_def)
    show "hasKey (mergeImage td2s (td, img) m) i \<longleftrightarrow> i \<in> snd ` set (merges @ [(td, img)])"
      using assms by (auto simp: key imageInv_def)
  qed
qed

lemma imageInv_fold:
  "imageInv td2s merges m \<Longrightarrow> imageInv td2s (merges @ rest) (fold (mergeImage td2s) rest m)"
proof (induction rest arbitrary: merges m)
  case Nil
  then show ?case by simp
next
  case (Cons ev rest)
  obtain td img where ev: "ev = (td, img)" by (cases ev)
  from Cons.IH[OF imageInv_mergeImage[OF Cons.prems, of td img]] ev
  show ?case by simp
qed

lemma imageInv_resolveImages: "imageInv td2s merges (resolveImages td2s merges)"
proof -
  have "imageInv td2s [] []"
    by (simp add: imageInv_def owners_def mapIndex_def hasKey_def imageOwners_def)
  from imageInv_fold[OF this, of merges] show ?thesis by (simp add: resolveImages_def)
qed

section \<open>The final state of a run\<close>

lemma set_pickOrder: "set (pickOrder hint work) = set work"
  by (auto simp: pickOrder_def dest: mset_eq_setD)

lemma mset_pickOrder: "mset (pickOrder hint work) = mset work"
  by (simp add: pickOrder_def)

lemma deriveNames_shortName:
  "deriveNames arns acc = Inr derived \<Longrightarrow>
   map Inr (fst derived) = map Inr (fst acc) @ map shortName arns"
proof (induction arns arbitrary: acc)
  case Nil
  then show ?case by simp
next
  case (Cons arn arns)
  obtain ns m where acc: "acc = (ns, m)" by (cases acc)
  from Cons.prems obtain name where n: "lastPart (splitArn arn) = Inr name"
    and r: "deriveNames arns (ns @ [name], AList.update name arn m) = Inr derived"
    by (auto simp: acc split: sum.splits)
  from Cons.IH[OF r] n show ?case by (simp add: acc shortName_def)
qed

lemma criticalSections_iff:
  "(td, img) \<in> set (criticalSections client tds) \<longleftrightarrow>
   td \<in> set tds \<and> img \<in> set (declaredImages client td)"
  by (auto simp: criticalSections_def declaredImages_def split: sum.splits)

lemma main_final:
  assumes "final (main cluster cfg sched) = Some f"
  obtains client arns derived where
    "cluster \<noteq> []" "cfg = Inr client"
    "listServices (ListServicesPages client) [] = Inr arns" "arns \<noteq> []"
    "deriveNames arns ([], []) = Inr derived" "names f = fst derived"
    "listing f = listAllTasks client (pickOrder (listingOrder sched) (names f))"
    "taskArns (listing f) \<noteq> []"
    "ownership f = describeAllTasks client (listing f)"
    "imageToServices f = resolveImages (taskDefToService (ownership f))
       (pickOrder (mergeOrder sched) (criticalSections client (taskDefArns (ownership f))))"
    "stdout (main cluster cfg sched) =
       [''Fetching services in cluster '' @ [CHR 0x27] @ cluster @ [CHR 0x27] @ ''...'',
        ''Fetching task ARNs for each service...'',
        ''Describing tasks to get task definitions...'',
        ''Describing task definitions to get container images...'',
        CHR 0x0A # ''Unique container image URIs and services using them:'']
       @ reportLines (imageToServices f)"
    "status (main cluster cfg sched) = Exit 0"
proof -
  from assms have c: "cluster \<noteq> []" by (auto simp: main_def split: if_splits)
  from assms c obtain client where cfg: "cfg = Inr client"
    by (cases cfg) (auto simp: main_def)
  from assms c cfg have s: "final (serviceStage cluster client sched) = Some f"
    by (simp add: main_def)
  then obtain arns where arns: "listServices (ListServicesPages client) [] = Inr arns"
    by (cases "listServices (ListServicesPages client) []") (auto simp: serviceStage_def)
  from s arns have ne: "arns \<noteq> []" by (auto simp: serviceStage_def split: if_splits)
  from s arns ne obtain derived where d: "deriveNames arns ([], []) = Inr derived"
    by (cases "deriveNames arns ([], [])") (auto simp: serviceStage_def)
  let ?out1 = "[''Fetching services in cluster '' @ [CHR 0x27] @ cluster @ [CHR 0x27] @ ''...'']"
  have m: "main cluster cfg sched = taskStage ?out1 client sched (fst derived)"
    using c cfg arns ne d by (simp add: main_def serviceStage_def)
  let ?l = "listAllTasks client (pickOrder (listingOrder sched) (fst derived))"
  from assms m have t: "taskArns ?l \<noteq> []"
    by (auto simp: taskStage_def Let_def split: if_splits)
  have r: "main cluster cfg sched =
      reportStage (?out1 @ [''Fetching task ARNs for each service...'']) client sched (fst derived) ?l"
    using m t by (simp add: taskStage_def Let_def)
  from assms have f: "f = the (final (main cluster cfg sched))" by simp
  show ?thesis
  proof (rule that[OF c cfg arns ne d])
    show "names f = fst derived" unfolding f r by (simp add: reportStage_def Let_def)
    then show "listing f = listAllTasks client (pickOrder (listingOrder sched) (names f))"
      unfolding f r by (simp add: reportStage_def Let_def)
    then show "taskArns (listing f) \<noteq> []" using t \<open>names f = fst derived\<close> by simp
    show o: "ownership f = describeAllTasks client (listing f)"
      unfolding f r by (simp add: reportStage_def Let_def)
    show i: "imageToServices f = resolveImages (taskDefToService (ownership f))
       (pickOrder (mergeOrder sched) (criticalSections client (taskDefArns (ownership f))))"
      unfolding f r by (simp add: reportStage_def Let_def)
    show "stdout (main cluster cfg sched) =
       [''Fetching services in cluster '' @ [CHR 0x27] @ cluster @ [CHR 0x27] @ ''...'',
        ''Fetching task ARNs for each service...'',
        ''Describing tasks to get task definitions...'',
        ''Describing task definitions to get container images...'',
        CHR 0x0A # ''Unique container image URIs and services using them:'']
       @ reportLines (imageToServices f)"
      unfolding f r by (simp add: reportStage_def Let_def)
    show "status (main cluster cfg sched) = Exit 0"
      unfolding r by (simp add: reportStage_def Let_def)
  qed
qed

lemma final_invariants:
  assumes "final (main cluster (Inr client) sched) = Some f"
  shows "ownershipInv (taskToService (listing f)) (describedTasks client (taskArns (listing f)))
           (ownership f)"
    and "imageInv (taskDefToService (ownership f))
           (pickOrder (mergeOrder sched) (criticalSections client (taskDefArns (ownership f))))
           (imageToServices f)"
proof -
  from assms obtain c where c: "Inr client = (Inr c :: api_error + ECS)"
    and o: "ownership f = describeAllTasks c (listing f)"
    and i: "imageToServices f = resolveImages (taskDefToService (ownership f))
       (pickOrder (mergeOrder sched) (criticalSections c (taskDefArns (ownership f))))"
    by (rule main_final)
  from c have cc: "c = client" by simp
  show "ownershipInv (taskToService (listing f)) (describedTasks client (taskArns (listing f)))
           (ownership f)"
    unfolding o cc by (rule ownershipInv_describeAllTasks)
  show "imageInv (taskDefToService (ownership f))
           (pickOrder (mergeOrder sched) (criticalSections client (taskDefArns (ownership f))))
           (imageToServices f)"
    using imageInv_resolveImages i cc by simp
qed

lemma final_image_owners:
  assumes "final (main cluster (Inr client) sched) = Some f"
  shows "svc \<in> set (owners (imageToServices f) img) \<longleftrightarrow>
         (\<exists>task \<in> set (describedTasks client (taskArns (listing f))).
            img \<in> set (declaredImages client (TaskDefinitionArn task)) \<and>
            svc = mapIndex [] (taskToService (listing f)) (TaskArn task))"
proof -
  let ?tasks = "describedTasks client (taskArns (listing f))"
  let ?merges = "pickOrder (mergeOrder sched) (criticalSections client (taskDefArns (ownership f)))"
  note inv = final_invariants[OF assms]
  have tds: "set (taskDefArns (ownership f)) = TaskDefinitionArn ` set ?tasks"
    using inv(1) by (simp add: ownershipInv_def)
  have own: "set (owners (taskDefToService (ownership f)) d) =
      definitionOwners (taskToService (listing f)) ?tasks d" for d
    using inv(1) by (simp add: ownershipInv_def)
  have "set (owners (imageToServices f) img) = imageOwners (taskDefToService (ownership f)) ?merges img"
    using inv(2) by (simp add: imageInv_def)
  also have "\<dots> = (\<Union>td \<in> {td. (td, img) \<in> set ?merges}. set (owners (taskDefToService (ownership f)) td))"
    by (auto simp: imageOwners_def split: if_splits)
  also have "{td. (td, img) \<in> set ?merges} =
      {td. td \<in> TaskDefinitionArn ` set ?tasks \<and> img \<in> set (declaredImages client td)}"
    by (simp add: set_pickOrder criticalSections_iff tds)
  finally show ?thesis by (auto simp: own definitionOwners_def; metis)
qed

lemma final_image_keys:
  assumes "final (main cluster (Inr client) sched) = Some f"
  shows "hasKey (imageToServices f) img \<longleftrightarrow>
         (\<exists>task \<in> set (describedTasks client (taskArns (listing f))).
            img \<in> set (declaredImages client (TaskDefinitionArn task)))"
proof -
  let ?tasks = "describedTasks client (taskArns (listing f))"
  let ?merges = "pickOrder (mergeOrder sched) (criticalSections client (taskDefArns (ownership f)))"
  note inv = final_invariants[OF assms]
  have tds: "set (taskDefArns (ownership f)) = TaskDefinitionArn ` set ?tasks"
    using inv(1) by (simp add: ownershipInv_def)
  have "hasKey (imageToServices f) img \<longleftrightarrow> img \<in> snd ` set ?merges"
    using inv(2) by (simp add: imageInv_def)
  also have "\<dots> \<longleftrightarrow> (\<exists>td. (td, img) \<in> set ?merges)" by force
  also have "\<dots> \<longleftrightarrow> (\<exists>td. td \<in> TaskDefinitionArn ` set ?tasks \<and> img \<in> set (declaredImages client td))"
    by (simp add: set_pickOrder criticalSections_iff tds)
  finally show ?thesis by auto
qed

lemma final_entries:
  assumes "final (main cluster (Inr client) sched) = Some f"
  shows "(img, svcs) \<in> set (imageToServices f) \<longleftrightarrow>
         hasKey (imageToServices f) img \<and> owners (imageToServices f) img = svcs"
  using final_invariants(2)[OF assms] entry_mapIndex[of "imageToServices f" img svcs "[]"]
  by (simp add: imageInv_def owners_def)

lemma example_final:
  "final (main ''prod'' (Inr example_client) example_schedule) =
     Some \<lparr>names = [''svc-a'', ''svc-b''],
           listing = \<lparr>taskArns = [''task-2'', ''task-1''],
                      taskToService = [(''task-2'', ''svc-b''), (''task-1'', ''svc-a'')]\<rparr>,
           ownership = \<lparr>describeCalls = [[''task-2'', ''task-1'']], taskDefArns = [''def-1''],
                        taskDefToService = [(''def-1'', [''svc-a'', ''svc-b''])]\<rparr>,
           imageToServices = [(''repo/app:1'', [''svc-b'', ''svc-a'']),
                              (''repo/sidecar:1'', [''svc-b'', ''svc-a''])]\<rparr>"
  by code_simp

section \<open>Described tasks and their owners\<close>

lemma described_listed:
  assumes "\<forall>batch tasks. DescribeTasks client batch = Inr tasks \<longrightarrow> TaskArn ` set tasks \<subseteq> set batch"
    and "task \<in> set (describedTasks client arns)"
  shows "TaskArn task \<in> set arns"
proof -
  from assms(2) obtain batch where b: "batch \<in> set (chunks arns)" and t: "task \<in> set (answeredTasks client batch)"
    by (auto simp: describedTasks_def)
  have "TaskArn task \<in> set batch"
  proof (cases "DescribeTasks client batch")
    case (Inl err)
    with t show ?thesis by (simp add: answeredTasks_def)
  next
    case (Inr tasks)
    with assms(1) have "TaskArn ` set tasks \<subseteq> set batch" by blast
    with t Inr show ?thesis by (auto simp: answeredTasks_def)
  qed
  moreover have "set batch \<subseteq> set (concat (chunks arns))" using b by auto
  ultimately show ?thesis by (auto simp: concat_chunks)
qed

lemma listed_task_owner:
  assumes "t \<in> set (taskArns (listAllTasks client order))"
  shows "mapIndex [] (taskToService (listAllTasks client order)) t \<in> set order"
proof -
  from assms obtain svc where "svc \<in> set order" "t \<in> set (listedTasks client svc)"
    by (auto simp: taskArns_listAllTasks)
  then have "map_of (taskToService (listAllTasks client order)) t \<noteq> None"
    by (auto simp: taskToService_listAllTasks_None)
  then obtain s where s: "map_of (taskToService (listAllTasks client order)) t = Some s" by auto
  from taskToService_listAllTasks_Some[OF s] s show ?thesis by (simp add: mapIndex_def)
qed

lemma final_definition_entries:
  assumes "final (main cluster (Inr client) sched) = Some f"
  shows "(td, svcs) \<in> set (taskDefToService (ownership f)) \<longleftrightarrow>
         hasKey (taskDefToService (ownership f)) td \<and> owners (taskDefToService (ownership f)) td = svcs"
  using final_invariants(1)[OF assms] entry_mapIndex[of "taskDefToService (ownership f)" td svcs "[]"]
  by (simp add: ownershipInv_def owners_def)

section \<open>Images always have an owner\<close>

text \<open>
  C10. In the final state of every run that reaches the report, every entry of the
  image-ownership mapping has at least one owner, so the condition \<open>len(services) > 0\<close>
  of line 178 holds for it and the lines printed for it are those of the first branch,
  never the line \<open>No active services using this image\<close>.
\<close>

theorem image_owners_nonempty:
  assumes "final (main cluster cfg sched) = Some f"
  shows "\<forall>(img, svcs) \<in> set (imageToServices f).
           length svcs > 0 \<and>
           imageLines img svcs = [img] @ (''  Services:'' # map (\<lambda>svc. ''    - '' @ svc) svcs) @ ['''']"
proof -
  from assms obtain client where cfg: "cfg = Inr client" by (rule main_final)
  note fin = assms[unfolded cfg]
  have ne: "svcs \<noteq> []" if "(img, svcs) \<in> set (imageToServices f)" for img svcs
  proof -
    from that final_entries[OF fin] have k: "hasKey (imageToServices f) img"
      and o: "owners (imageToServices f) img = svcs" by auto
    from k final_image_keys[OF fin] obtain task
      where "task \<in> set (describedTasks client (taskArns (listing f)))"
        "img \<in> set (declaredImages client (TaskDefinitionArn task))" by auto
    then have "mapIndex [] (taskToService (listing f)) (TaskArn task) \<in> set (owners (imageToServices f) img)"
      using final_image_owners[OF fin] by auto
    with o show ?thesis by auto
  qed
  then show ?thesis by (auto simp: imageLines_def)
qed

theorem image_owners_nonempty_witness:
  "imageToServices (the (final (main ''prod'' (Inr example_client) example_schedule))) =
     [(''repo/app:1'', [''svc-b'', ''svc-a'']), (''repo/sidecar:1'', [''svc-b'', ''svc-a''])] \<and>
   imageLines ''repo/app:1'' [''svc-b'', ''svc-a''] =
     [''repo/app:1'', ''  Services:'', ''    - svc-b'', ''    - svc-a'', '''']"
  using image_owners_nonempty[OF example_final] by (simp add: example_final)

section \<open>The invariant of the ownership sets\<close>

text \<open>
  C8, as amended. In the final state of every run that reaches the report: the names of
  the services are the short names of the enumerated identifiers; no ownership set of a
  task definition or of an image holds a name twice; every name in an ownership set is
  the short name of an enumerated service or the empty name (what the reverse index gives
  for a task that no service listed); it is always the short name of an enumerated
  service when every bulk description returns only tasks it was asked about; and every
  key of the image-ownership mapping is non-empty when the task definitions declare only
  non-empty image URIs.
\<close>

theorem ownership_sets_invariant:
  assumes fin: "final (main cluster (Inr client) sched) = Some f"
  shows "(\<exists>arns. listServices (ListServicesPages client) [] = Inr arns \<and>
                 map Inr (names f) = map shortName arns) \<and>
         (\<forall>(tdArn, svcs) \<in> set (taskDefToService (ownership f)).
            distinct svcs \<and> set svcs \<subseteq> insert [] (set (names f))) \<and>
         (\<forall>(img, svcs) \<in> set (imageToServices f).
            distinct svcs \<and> set svcs \<subseteq> insert [] (set (names f))) \<and>
         ((\<forall>batch tasks. DescribeTasks client batch = Inr tasks \<longrightarrow> TaskArn ` set tasks \<subseteq> set batch) \<longrightarrow>
            (\<forall>(tdArn, svcs) \<in> set (taskDefToService (ownership f)). set svcs \<subseteq> set (names f)) \<and>
            (\<forall>(img, svcs) \<in> set (imageToServices f). set svcs \<subseteq> set (names f))) \<and>
         ((\<forall>tdArn images. DescribeTaskDefinition client tdArn = Inr images \<longrightarrow> [] \<notin> set images) \<longrightarrow>
            (\<forall>(img, svcs) \<in> set (imageToServices f). img \<noteq> []))"
proof -
  from fin obtain c arns derived where c: "Inr client = (Inr c :: api_error + ECS)"
    and arns: "listServices (ListServicesPages c) [] = Inr arns"
    and derived: "deriveNames arns ([], []) = Inr derived" "names f = fst derived"
    and l: "listing f = listAllTasks c (pickOrder (listingOrder sched) (names f))"
    by (rule main_final)
  from c have cc: "c = client" by simp
  note inv = final_invariants[OF fin]
  let ?tasks = "describedTasks client (taskArns (listing f))"
  let ?idx = "mapIndex [] (taskToService (listing f))"
  have n: "\<exists>arns. listServices (ListServicesPages client) [] = Inr arns \<and>
                 map Inr (names f) = map shortName arns"
    using arns deriveNames_shortName[OF derived(1)] derived(2) cc by auto
  have range: "?idx t \<in> insert [] (set (names f))" for t
    using reverse_index_range[of client "pickOrder (listingOrder sched) (names f)" t]
    by (simp add: l cc set_pickOrder)
  have dset: "set svcs = definitionOwners (taskToService (listing f)) ?tasks tdArn \<and> distinct svcs"
    if "(tdArn, svcs) \<in> set (taskDefToService (ownership f))" for tdArn svcs
  proof -
    from that final_definition_entries[OF fin]
    have o: "owners (taskDefToService (ownership f)) tdArn = svcs" by auto
    then show ?thesis using inv(1) by (auto simp: ownershipInv_def)
  qed
  have iset: "hasKey (imageToServices f) img \<and> owners (imageToServices f) img = svcs \<and> distinct svcs"
    if "(img, svcs) \<in> set (imageToServices f)" for img svcs
  proof -
    from that final_entries[OF fin] have "hasKey (imageToServices f) img"
      and o: "owners (imageToServices f) img = svcs" by auto
    then show ?thesis using inv(2) by (auto simp: imageInv_def)
  qed
  have d1: "\<forall>(tdArn, svcs) \<in> set (taskDefToService (ownership f)).
      distinct svcs \<and> set svcs \<subseteq> insert [] (set (names f))"
    using dset range by (fastforce simp: definitionOwners_def)
  have i1: "\<forall>(img, svcs) \<in> set (imageToServices f).
      distinct svcs \<and> set svcs \<subseteq> insert [] (set (names f))"
  proof (clarify, intro conjI subsetI)
    fix img svcs svc
    assume e: "(img, svcs) \<in> set (imageToServices f)"
    from iset[OF e] show "distinct svcs" by simp
    assume "svc \<in> set svcs"
    with iset[OF e] have "svc \<in> set (owners (imageToServices f) img)" by simp
    with final_image_owners[OF fin, of svc img] range show "svc \<in> insert [] (set (names f))" by auto
  qed
  have asked: "(\<forall>(tdArn, svcs) \<in> set (taskDefToService (ownership f)). set svcs \<subseteq> set (names f)) \<and>
      (\<forall>(img, svcs) \<in> set (imageToServices f). set svcs \<subseteq> set (names f))"
    if a: "\<forall>batch tasks. DescribeTasks client batch = Inr tasks \<longrightarrow> TaskArn ` set tasks \<subseteq> set batch"
  proof -
    have owner: "?idx (TaskArn task) \<in> set (names f)" if "task \<in> set ?tasks" for task
    proof -
      from described_listed[OF a that] have "TaskArn task \<in> set (taskArns (listing f))" .
      then show ?thesis
        using listed_task_owner[of "TaskArn task" client "pickOrder (listingOrder sched) (names f)"]
        by (simp add: l cc set_pickOrder)
    qed
    have "\<forall>(tdArn, svcs) \<in> set (taskDefToService (ownership f)). set svcs \<subseteq> set (names f)"
      using dset owner by (fastforce simp: definitionOwners_def)
    moreover have "\<forall>(img, svcs) \<in> set (imageToServices f). set svcs \<subseteq> set (names f)"
    proof (clarify)
      fix img svcs svc
      assume e: "(img, svcs) \<in> set (imageToServices f)" and "svc \<in> set svcs"
      with iset[OF e] have "svc \<in> set (owners (imageToServices f) img)" by simp
      with final_image_owners[OF fin, of svc img] owner show "svc \<in> set (names f)" by auto
    qed
    ultimately show ?thesis by simp
  qed
  have uris: "\<forall>(img, svcs) \<in> set (imageToServices f). img \<noteq> []"
    if u: "\<forall>tdArn images. DescribeTaskDefinition client tdArn = Inr images \<longrightarrow> [] \<notin> set images"
  proof (clarify)
    fix svcs
    assume e: "([], svcs) \<in> set (imageToServices f)"
    from iset[OF e] final_image_keys[OF fin, of "[]"] obtain task :: Task
      where "[] \<in> set (declaredImages client (TaskDefinitionArn task))" by auto
    then show False using u
      by (cases "DescribeTaskDefinition client (TaskDefinitionArn task)")
        (auto simp: declaredImages_def)
  qed
  from n d1 i1 asked uris show ?thesis by blast
qed

theorem ownership_sets_invariant_witness:
  "imageToServices (the (final (main ''prod'' (Inr example_client) example_schedule))) =
     [(''repo/app:1'', [''svc-b'', ''svc-a'']), (''repo/sidecar:1'', [''svc-b'', ''svc-a''])] \<and>
   names (the (final (main ''prod'' (Inr example_client) example_schedule))) = [''svc-a'', ''svc-b''] \<and>
   list_all (\<lambda>(img, svcs). img \<noteq> [] \<and> distinct svcs \<and>
       set svcs \<subseteq> set (names (the (final (main ''prod'' (Inr example_client) example_schedule)))))
     (imageToServices (the (final (main ''prod'' (Inr example_client) example_schedule))))"
proof -
  let ?f = "the (final (main ''prod'' (Inr example_client) example_schedule))"
  have fin: "final (main ''prod'' (Inr example_client) example_schedule) = Some ?f"
    by (simp add: example_final)
  have a: "\<forall>batch tasks. DescribeTasks example_client batch = Inr tasks \<longrightarrow> TaskArn ` set tasks \<subseteq> set batch"
    by (auto simp: example_client_def truthfulClient_def)
  have u: "\<forall>tdArn images. DescribeTaskDefinition example_client tdArn = Inr images \<longrightarrow> [] \<notin> set images"
    by (auto simp: example_client_def truthfulClient_def example_cluster_def)
  from ownership_sets_invariant[OF fin] a u
  have "\<forall>(img, svcs) \<in> set (imageToServices ?f).
      img \<noteq> [] \<and> distinct svcs \<and> set svcs \<subseteq> set (names ?f)"
    by blast
  then have "list_all (\<lambda>(img, svcs). img \<noteq> [] \<and> distinct svcs \<and> set svcs \<subseteq> set (names ?f))
      (imageToServices ?f)"
    by (simp add: list_all_iff)
  moreover have "imageToServices ?f =
      [(''repo/app:1'', [''svc-b'', ''svc-a'']), (''repo/sidecar:1'', [''svc-b'', ''svc-a''])]"
    and "names ?f = [''svc-a'', ''svc-b'']"
    by (simp_all add: example_final)
  ultimately show ?thesis by blast
qed

text \<open>
  C8 as stated fails: the program takes the answers of the remote service as they are.
  When a bulk description returns a task that no service listed, the reverse index gives
  the empty name for it, and the empty name becomes an owner; when a task definition
  declares the empty image URI, the empty string becomes a key.
\<close>

theorem ownership_sets_invariant_counterexample:
  "names (the (final (main ''prod'' (Inr stray_client) program_order))) = [''svc-a''] \<and>
   taskDefToService (ownership (the (final (main ''prod'' (Inr stray_client) program_order)))) =
     [(''def-1'', ['''', ''svc-a''])] \<and>
   imageToServices (the (final (main ''prod'' (Inr stray_client) program_order))) =
     [('''', [''svc-a'', ''''])]"
  by code_simp

section \<open>A task definition shared by two services\<close>

lemma answersTruthfully_truthfulClient: "answersTruthfully (truthfulClient pages c) c"
  by (simp add: answersTruthfully_def truthfulClient_def)

lemma shared_final:
  "final (main ''prod'' (Inr shared_client) program_order) =
     Some \<lparr>names = [''svc-a'', ''svc-b''],
           listing = \<lparr>taskArns = [''task-1'', ''task-1''],
                      taskToService = [(''task-1'', ''svc-b'')]\<rparr>,
           ownership = \<lparr>describeCalls = [[''task-1'', ''task-1'']], taskDefArns = [''def-1''],
                        taskDefToService = [(''def-1'', [''svc-b''])]\<rparr>,
           imageToServices = [(''repo/app:1'', [''svc-b''])]\<rparr>"
  by code_simp

text \<open>
  C2, as amended. Let the task definition \<open>tdArn\<close> be reached from the services \<open>A\<close> and
  \<open>B\<close>: each of them lists a task that a successful bulk description of the run gives
  as running \<open>tdArn\<close>, and no other service lists that task. Then every image that the
  successful description of \<open>tdArn\<close> declares has both \<open>A\<close> and \<open>B\<close> among its owners
  in the final state, the owners of the image hold no name twice, and the mapping has
  one entry for the image.
\<close>

theorem shared_definition_owners:
  assumes fin: "final (main cluster (Inr client) sched) = Some f"
    and A: "A \<in> set (names f)" "tA \<in> set (listedTasks client A)"
      "\<lparr>TaskArn = tA, TaskDefinitionArn = tdArn\<rparr> \<in> set (describedTasks client (taskArns (listing f)))"
    and onlyA: "\<forall>S \<in> set (names f). S \<noteq> A \<longrightarrow> tA \<notin> set (listedTasks client S)"
    and B: "B \<in> set (names f)" "tB \<in> set (listedTasks client B)"
      "\<lparr>TaskArn = tB, TaskDefinitionArn = tdArn\<rparr> \<in> set (describedTasks client (taskArns (listing f)))"
    and onlyB: "\<forall>S \<in> set (names f). S \<noteq> B \<longrightarrow> tB \<notin> set (listedTasks client S)"
    and img: "img \<in> set (declaredImages client tdArn)"
  shows "A \<in> set (owners (imageToServices f) img) \<and>
         B \<in> set (owners (imageToServices f) img) \<and>
         distinct (owners (imageToServices f) img) \<and>
         (img, owners (imageToServices f) img) \<in> set (imageToServices f) \<and>
         distinct (map fst (imageToServices f))"
proof -
  from fin obtain c where c: "Inr client = (Inr c :: api_error + ECS)"
    and l: "listing f = listAllTasks c (pickOrder (listingOrder sched) (names f))"
    by (rule main_final)
  from c have cc: "c = client" by simp
  have idx: "mapIndex [] (taskToService (listing f)) t = S"
    if "S \<in> set (names f)" "t \<in> set (listedTasks client S)"
      "\<forall>S' \<in> set (names f). S' \<noteq> S \<longrightarrow> t \<notin> set (listedTasks client S')" for S t
    unfolding l cc using that
    by (intro reverse_index_unique) (simp_all add: set_pickOrder)
  have own: "S \<in> set (owners (imageToServices f) img)"
    if "\<lparr>TaskArn = t, TaskDefinitionArn = tdArn\<rparr> \<in> set (describedTasks client (taskArns (listing f)))"
      "mapIndex [] (taskToService (listing f)) t = S" for S t
    using that img final_image_owners[OF fin, of S img] by force
  have key: "hasKey (imageToServices f) img"
    using A(3) img final_image_keys[OF fin, of img] by force
  note inv = final_invariants(2)[OF fin]
  show ?thesis
    using own[OF A(3) idx[OF A(1,2) onlyA]] own[OF B(3) idx[OF B(1,2) onlyB]] key inv
      final_entries[OF fin, of img "owners (imageToServices f) img"]
    by (simp add: imageInv_def)
qed

theorem shared_definition_owners_witness:
  "owners (imageToServices (the (final (main ''prod'' (Inr example_client) example_schedule))))
      ''repo/sidecar:1'' = [''svc-b'', ''svc-a''] \<and>
   ''svc-a'' \<in> set (owners (imageToServices (the (final (main ''prod'' (Inr example_client) example_schedule))))
      ''repo/sidecar:1'') \<and>
   ''svc-b'' \<in> set (owners (imageToServices (the (final (main ''prod'' (Inr example_client) example_schedule))))
      ''repo/sidecar:1'')"
proof -
  let ?f = "the (final (main ''prod'' (Inr example_client) example_schedule))"
  have fin: "final (main ''prod'' (Inr example_client) example_schedule) = Some ?f"
    by (simp add: example_final)
  have names: "names ?f = [''svc-a'', ''svc-b'']" by (simp add: example_final)
  have tasks: "taskArns (listing ?f) = [''task-2'', ''task-1'']" by (simp add: example_final)
  have d: "describedTasks example_client [''task-2'', ''task-1''] =
      [\<lparr>TaskArn = ''task-2'', TaskDefinitionArn = ''def-1''\<rparr>,
       \<lparr>TaskArn = ''task-1'', TaskDefinitionArn = ''def-1''\<rparr>]"
    by (simp add: describedTasks_def chunks_Cons chunks_Nil answeredTasks_def example_client_def truthfulClient_def example_cluster_def)
  have la: "listedTasks example_client ''svc-a'' = [''task-1'']"
    and lb: "listedTasks example_client ''svc-b'' = [''task-2'']"
    by (simp_all add: listedTasks_def example_client_def truthfulClient_def example_cluster_def)
  have i: "declaredImages example_client ''def-1'' = [''repo/app:1'', ''repo/sidecar:1'']"
    by (simp add: declaredImages_def example_client_def truthfulClient_def example_cluster_def)
  have "''svc-a'' \<in> set (owners (imageToServices ?f) ''repo/sidecar:1'') \<and>
        ''svc-b'' \<in> set (owners (imageToServices ?f) ''repo/sidecar:1'')"
    using shared_definition_owners[OF fin, of "''svc-a''" "''task-1''" "''def-1''" "''svc-b''" "''task-2''"
        "''repo/sidecar:1''"]
    by (simp add: names tasks d la lb i)
  moreover have "owners (imageToServices ?f) ''repo/sidecar:1'' = [''svc-b'', ''svc-a'']"
    by (simp add: example_final owners_def mapIndex_def)
  ultimately show ?thesis by simp
qed

text \<open>
  C2 as stated fails when two services list the same task: the reverse index keeps one
  service per task, the one whose worker merged last. In program order that is
  \<open>svc-b\<close>, and \<open>svc-a\<close> is lost from the owners of the image although it lists a
  successfully described task that runs the definition.
\<close>

theorem shared_definition_owners_counterexample:
  "''task-1'' \<in> set (listedTasks shared_client ''svc-a'') \<and>
   ''task-1'' \<in> set (listedTasks shared_client ''svc-b'') \<and>
   names (the (final (main ''prod'' (Inr shared_client) program_order))) = [''svc-a'', ''svc-b''] \<and>
   \<lparr>TaskArn = ''task-1'', TaskDefinitionArn = ''def-1''\<rparr> \<in>
     set (describedTasks shared_client
       (taskArns (listing (the (final (main ''prod'' (Inr shared_client) program_order)))))) \<and>
   ''repo/app:1'' \<in> set (declaredImages shared_client ''def-1'') \<and>
   owners (imageToServices (the (final (main ''prod'' (Inr shared_client) program_order))))
     ''repo/app:1'' = [''svc-b'']"
  by (simp add: shared_final owners_def mapIndex_def)
    (simp add: shared_client_def truthfulClient_def shared_cluster_def listedTasks_def
      declaredImages_def describedTasks_def chunks_Cons chunks_Nil answeredTasks_def)

section \<open>Completeness when every call succeeds\<close>

lemma describedTasks_truthful:
  assumes "answersTruthfully client c"
  shows "set (describedTasks client arns) =
         (\<lambda>t. \<lparr>TaskArn = t, TaskDefinitionArn = definitionOf c t\<rparr>) ` set arns"
proof -
  have a: "set (answeredTasks client batch) =
      (\<lambda>t. \<lparr>TaskArn = t, TaskDefinitionArn = definitionOf c t\<rparr>) ` set batch" for batch
  proof -
    from assms obtain tasks where "DescribeTasks client batch = Inr tasks"
      "set tasks = (\<lambda>t. \<lparr>TaskArn = t, TaskDefinitionArn = definitionOf c t\<rparr>) ` set batch"
      unfolding answersTruthfully_def by blast
    then show ?thesis by (simp add: answeredTasks_def)
  qed
  have "set (describedTasks client arns) =
      (\<lambda>t. \<lparr>TaskArn = t, TaskDefinitionArn = definitionOf c t\<rparr>) ` set (concat (chunks arns))"
    unfolding describedTasks_def by (auto simp: a)
  then show ?thesis by (simp add: concat_chunks)
qed

lemma listedTasks_truthful: "answersTruthfully client c \<Longrightarrow> listedTasks client svcName = tasksOf c svcName"
  by (simp add: answersTruthfully_def listedTasks_def)

lemma declaredImages_truthful: "answersTruthfully client c \<Longrightarrow> declaredImages client tdArn = imagesOf c tdArn"
  by (simp add: answersTruthfully_def declaredImages_def)

lemma main_names:
  assumes "cluster \<noteq> []" "listServices (ListServicesPages client) [] = Inr arns" "arns \<noteq> []"
    "deriveNames arns ([], []) = Inr derived"
  shows "main cluster (Inr client) sched =
         taskStage [''Fetching services in cluster '' @ [CHR 0x27] @ cluster @ [CHR 0x27] @ ''...'']
           client sched (fst derived)"
  using assms by (simp add: main_def serviceStage_def)

text \<open>
  Completeness for the names that line 64 has derived: when the derivation does not
  panic, the answers are truthful and no task is listed for two of the names, a name
  owns an image in the run if and only if the service uses one.
\<close>

lemma completeness_derived:
  assumes cluster: "cluster \<noteq> []"
    and arns: "listServices (ListServicesPages client) [] = Inr arns"
    and derived: "deriveNames arns ([], []) = Inr derived"
    and ok: "answersTruthfully client c"
    and one: "\<forall>A \<in> set (fst derived). \<forall>B \<in> set (fst derived).
                A \<noteq> B \<longrightarrow> set (tasksOf c A) \<inter> set (tasksOf c B) = {}"
    and svc: "svcName \<in> set (fst derived)"
  shows "ownsAnImage (main cluster (Inr client) sched) svcName \<longleftrightarrow> usesAnImage c svcName"
proof -
  let ?names = "fst derived"
  let ?order = "pickOrder (listingOrder sched) ?names"
  let ?l = "listAllTasks client ?order"
  from svc derived have ne: "arns \<noteq> []" by auto
  note m = main_names[OF cluster arns ne derived, of sched]
  have listed: "listedTasks client S = tasksOf c S" for S
    using ok by (rule listedTasks_truthful)
  have tasks: "set (taskArns ?l) = (\<Union>S \<in> set ?names. set (tasksOf c S))"
    by (simp add: taskArns_listAllTasks set_pickOrder listed)
  show ?thesis
  proof (cases "taskArns ?l = []")
    case True
    then have "final (main cluster (Inr client) sched) = None"
      by (simp add: m taskStage_def Let_def)
    then have "\<not> ownsAnImage (main cluster (Inr client) sched) svcName"
      by (simp add: ownsAnImage_def)
    moreover have "tasksOf c svcName = []" using tasks True svc by auto
    then have "\<not> usesAnImage c svcName" by (simp add: usesAnImage_def)
    ultimately show ?thesis by simp
  next
    case False
    then obtain f where fin: "final (main cluster (Inr client) sched) = Some f"
      by (simp add: m taskStage_def Let_def reportStage_def)
    then have nf: "names f = ?names" and lf: "listing f = ?l"
      using False by (auto simp: m taskStage_def Let_def reportStage_def)
    have idx: "mapIndex [] (taskToService ?l) t = svcName \<longleftrightarrow> t \<in> set (tasksOf c svcName)"
      if t: "t \<in> set (taskArns ?l)" for t
    proof
      assume "mapIndex [] (taskToService ?l) t = svcName"
      moreover from t obtain S where "S \<in> set ?order" "t \<in> set (listedTasks client S)"
        by (auto simp: taskArns_listAllTasks)
      then have "map_of (taskToService ?l) t \<noteq> None"
        by (auto simp: taskToService_listAllTasks_None)
      then obtain S' where s: "map_of (taskToService ?l) t = Some S'" by auto
      ultimately have "S' = svcName" by (simp add: mapIndex_def)
      with taskToService_listAllTasks_Some[OF s] show "t \<in> set (tasksOf c svcName)"
        by (simp add: listed)
    next
      assume a: "t \<in> set (tasksOf c svcName)"
      have "\<forall>other \<in> set ?order. other \<noteq> svcName \<longrightarrow> t \<notin> set (listedTasks client other)"
        using one svc a by (auto simp: set_pickOrder listed)
      then show "mapIndex [] (taskToService ?l) t = svcName"
        using svc a by (intro reverse_index_unique) (simp_all add: set_pickOrder listed)
    qed
    have "ownsAnImage (main cluster (Inr client) sched) svcName \<longleftrightarrow>
        (\<exists>img. hasKey (imageToServices f) img \<and> svcName \<in> set (owners (imageToServices f) img))"
    proof -
      have "(\<exists>entry \<in> set (imageToServices f). svcName \<in> set (snd entry)) \<longleftrightarrow>
          (\<exists>img svcs. (img, svcs) \<in> set (imageToServices f) \<and> svcName \<in> set svcs)"
        by force
      then show ?thesis by (simp add: ownsAnImage_def fin final_entries[OF fin])
    qed
    also have "\<dots> \<longleftrightarrow> (\<exists>img. svcName \<in> set (owners (imageToServices f) img))"
      using final_image_keys[OF fin] final_image_owners[OF fin] by blast
    also have "\<dots> \<longleftrightarrow> (\<exists>img. \<exists>t \<in> set (taskArns ?l). img \<in> set (imagesOf c (definitionOf c t)) \<and>
        svcName = mapIndex [] (taskToService ?l) t)"
      by (simp add: final_image_owners[OF fin] describedTasks_truthful[OF ok]
          declaredImages_truthful[OF ok] lf)
    also have "\<dots> \<longleftrightarrow> (\<exists>t \<in> set (taskArns ?l). imagesOf c (definitionOf c t) \<noteq> [] \<and>
        mapIndex [] (taskToService ?l) t = svcName)"
    proof -
      have "(\<exists>img. img \<in> set xs) \<longleftrightarrow> xs \<noteq> []" for xs :: "string list"
        by (cases xs) auto
      then show ?thesis by blast
    qed
    also have "\<dots> \<longleftrightarrow> (\<exists>t \<in> set (taskArns ?l). imagesOf c (definitionOf c t) \<noteq> [] \<and>
        t \<in> set (tasksOf c svcName))"
      using idx by blast
    also have "\<dots> \<longleftrightarrow> usesAnImage c svcName"
      using tasks svc by (auto simp: usesAnImage_def)
    finally show ?thesis .
  qed
qed

text \<open>
  Line 64 panics on the empty identifier only, so the names are derived when no
  identifier of the enumeration is empty; they are the short names of the identifiers.
\<close>

lemma deriveNames_total:
  "[] \<notin> set arns \<Longrightarrow> \<exists>derived. deriveNames arns acc = Inr derived"
proof (induction arns arbitrary: acc)
  case Nil
  then show ?case by simp
next
  case (Cons arn arns)
  obtain ns m where acc: "acc = (ns, m)" by (cases acc)
  from Cons.prems have "arn \<noteq> []" by auto
  then have "lastPart (splitArn arn) = Inr (last (splitArn arn))"
    using shortName_eq[of arn] by (simp add: shortName_def)
  moreover from Cons.prems have "[] \<notin> set arns" by auto
  ultimately show ?case using Cons.IH by (simp add: acc)
qed

lemma derived_names:
  assumes "deriveNames arns ([], []) = Inr derived"
  shows "name \<in> set (fst derived) \<longleftrightarrow> (\<exists>arn \<in> set arns. shortName arn = Inr name)"
proof -
  from deriveNames_shortName[OF assms] have m: "map Inr (fst derived) = map shortName arns"
    by simp
  have e: "Inr ` set (fst derived) = shortName ` set arns"
    using arg_cong[OF m, of set] by (simp only: set_map)
  show ?thesis
  proof
    assume "name \<in> set (fst derived)"
    then have "(Inr name :: panic + string) \<in> Inr ` set (fst derived)" by (rule imageI)
    then have "Inr name \<in> shortName ` set arns" unfolding e .
    then obtain arn where "arn \<in> set arns" "Inr name = shortName arn" by (rule imageE)
    then have "arn \<in> set arns \<and> shortName arn = Inr name" by simp
    then show "\<exists>arn \<in> set arns. shortName arn = Inr name" by (rule_tac x = arn in bexI) simp_all
  next
    assume "\<exists>arn \<in> set arns. shortName arn = Inr name"
    then obtain arn where a: "arn \<in> set arns" and s: "shortName arn = Inr name" by (rule bexE)
    from a have "shortName arn \<in> shortName ` set arns" by (rule imageI)
    then have "(Inr name :: panic + string) \<in> Inr ` set (fst derived)" unfolding e s .
    then obtain x where x: "x \<in> set (fst derived)" and "Inr name = (Inr x :: panic + string)"
      by (rule imageE)
    then have "name = x" by simp
    with x show "name \<in> set (fst derived)" by simp
  qed
qed

text \<open>
  C1, as amended. Let the run be given a cluster name and load its configuration, let
  the enumeration succeed and return no empty service identifier (a run with an empty
  identifier panics at line 64),
  let every call succeed and answer with what the cluster holds (each listing call with
  the running tasks of the service, each bulk description with the task definition of
  exactly the tasks it is asked about, each description of a task definition with the
  images it declares), and let no task be listed for two services with different short
  names. Then a service returned by the enumeration owns an image in the run (the run
  reaches the report and the final mapping has the short name of the service among the
  owners of some image) if and only if it has a running task whose task definition
  declares a container image. This holds for every schedule, and also for a run that
  ends with \<open>No tasks found.\<close>, where no service has a task and none owns an image.
\<close>

theorem completeness_under_success:
  assumes cluster: "cluster \<noteq> []"
    and arns: "listServices (ListServicesPages client) [] = Inr arns"
    and named: "[] \<notin> set arns"
    and ok: "answersTruthfully client c"
    and one: "\<forall>a \<in> set arns. \<forall>b \<in> set arns. \<forall>A B.
                shortName a = Inr A \<and> shortName b = Inr B \<and> A \<noteq> B \<longrightarrow>
                set (tasksOf c A) \<inter> set (tasksOf c B) = {}"
    and svc: "arn \<in> set arns" "shortName arn = Inr svcName"
  shows "ownsAnImage (main cluster (Inr client) sched) svcName \<longleftrightarrow> usesAnImage c svcName"
proof -
  from deriveNames_total[OF named] obtain derived where
    d: "deriveNames arns ([], []) = Inr derived" by blast
  note n = derived_names[OF d]
  have "\<forall>A \<in> set (fst derived). \<forall>B \<in> set (fst derived).
          A \<noteq> B \<longrightarrow> set (tasksOf c A) \<inter> set (tasksOf c B) = {}"
  proof (intro ballI impI)
    fix A B
    assume "A \<in> set (fst derived)" "B \<in> set (fst derived)" and ab: "A \<noteq> B"
    then obtain a b where "a \<in> set arns" "shortName a = Inr A" "b \<in> set arns" "shortName b = Inr B"
      unfolding n by blast
    with one ab show "set (tasksOf c A) \<inter> set (tasksOf c B) = {}" by blast
  qed
  moreover have "svcName \<in> set (fst derived)" using svc n by blast
  ultimately show ?thesis by (rule completeness_derived[OF cluster arns d ok])
qed

lemma example_shortNames:
  "shortName ''arn:aws:ecs:us-east-1:1:service/prod/svc-a'' = Inr ''svc-a''"
  "shortName ''arn:aws:ecs:us-east-1:1:service/prod/svc-b'' = Inr ''svc-b''"
  by code_simp+

theorem completeness_under_success_witness:
  "ownsAnImage (main ''prod'' (Inr example_client) example_schedule) ''svc-a'' \<and>
   usesAnImage example_cluster ''svc-a'' \<and>
   \<not> ownsAnImage (main ''prod'' (Inr idle_client) example_schedule) ''svc-idle'' \<and>
   \<not> usesAnImage example_cluster ''svc-idle''"
proof -
  have u: "usesAnImage example_cluster ''svc-a''" "\<not> usesAnImage example_cluster ''svc-idle''"
    by (simp_all add: usesAnImage_def example_cluster_def)
  have l: "listServices (ListServicesPages example_client) [] =
      Inr [''arn:aws:ecs:us-east-1:1:service/prod/svc-a'',
           ''arn:aws:ecs:us-east-1:1:service/prod/svc-b'']"
    by (simp add: example_client_def truthfulClient_def)
  have ok: "answersTruthfully example_client example_cluster"
    unfolding example_client_def by (rule answersTruthfully_truthfulClient)
  have one: "\<forall>a \<in> set [''arn:aws:ecs:us-east-1:1:service/prod/svc-a'',
                          ''arn:aws:ecs:us-east-1:1:service/prod/svc-b''].
      \<forall>b \<in> set [''arn:aws:ecs:us-east-1:1:service/prod/svc-a'',
                  ''arn:aws:ecs:us-east-1:1:service/prod/svc-b'']. \<forall>A B.
        shortName a = Inr A \<and> shortName b = Inr B \<and> A \<noteq> B \<longrightarrow>
        set (tasksOf example_cluster A) \<inter> set (tasksOf example_cluster B) = {}"
    by (auto simp: example_shortNames example_cluster_def)
  have "ownsAnImage (main ''prod'' (Inr example_client) example_schedule) ''svc-a'' \<longleftrightarrow>
      usesAnImage example_cluster ''svc-a''"
    by (rule completeness_under_success[OF _ l _ ok one _ example_shortNames(1)]) simp_all
  moreover
  have li: "listServices (ListServicesPages idle_client) [] =
      Inr [''arn:aws:ecs:us-east-1:1:service/prod/svc-idle'']"
    by (simp add: idle_client_def truthfulClient_def)
  have oki: "answersTruthfully idle_client example_cluster"
    unfolding idle_client_def by (rule answersTruthfully_truthfulClient)
  have si: "shortName ''arn:aws:ecs:us-east-1:1:service/prod/svc-idle'' = Inr ''svc-idle''"
    by code_simp
  have "ownsAnImage (main ''prod'' (Inr idle_client) example_schedule) ''svc-idle'' \<longleftrightarrow>
      usesAnImage example_cluster ''svc-idle''"
    by (rule completeness_under_success[OF _ li _ oki _ _ si]) (simp_all add: si)
  ultimately show ?thesis using u by simp
qed

lemma unnamed_run:
  "main ''prod'' (Inr unnamed_client) program_order =
     \<lparr>stdout = [''Fetching services in cluster '' @ [CHR 0x27] @ ''prod'' @ [CHR 0x27] @ ''...''],
      status = Panicked IndexOutOfRange, final = None\<rparr>"
  by code_simp

text \<open>
  C1 as stated fails in two ways. When the listing calls of two services return the
  same task, all calls succeed, \<open>svc-a\<close> has a running task whose definition declares
  an image, and the final mapping gives the image to \<open>svc-b\<close> alone. When the
  enumeration returns the empty identifier after that of \<open>svc-a\<close>, no call fails,
  \<open>svc-a\<close> has a running task whose definition declares an image, and the run panics
  at line 64 before any image is found.
\<close>

theorem completeness_under_success_counterexample:
  "answersTruthfully shared_client shared_cluster \<and>
   names (the (final (main ''prod'' (Inr shared_client) program_order))) = [''svc-a'', ''svc-b''] \<and>
   usesAnImage shared_cluster ''svc-a'' \<and>
   imageToServices (the (final (main ''prod'' (Inr shared_client) program_order))) =
     [(''repo/app:1'', [''svc-b''])] \<and>
   \<not> ownsAnImage (main ''prod'' (Inr shared_client) program_order) ''svc-a'' \<and>
   answersTruthfully unnamed_client example_cluster \<and>
   listServices (ListServicesPages unnamed_client) [] =
     Inr [''arn:aws:ecs:us-east-1:1:service/prod/svc-a'', ''''] \<and>
   shortName ''arn:aws:ecs:us-east-1:1:service/prod/svc-a'' = Inr ''svc-a'' \<and>
   usesAnImage example_cluster ''svc-a'' \<and>
   status (main ''prod'' (Inr unnamed_client) program_order) = Panicked IndexOutOfRange \<and>
   \<not> ownsAnImage (main ''prod'' (Inr unnamed_client) program_order) ''svc-a''"
proof -
  have "answersTruthfully shared_client shared_cluster"
    unfolding shared_client_def by (rule answersTruthfully_truthfulClient)
  moreover have "usesAnImage shared_cluster ''svc-a''"
    by (simp add: usesAnImage_def shared_cluster_def)
  moreover have "answersTruthfully unnamed_client example_cluster"
    unfolding unnamed_client_def by (rule answersTruthfully_truthfulClient)
  moreover have "usesAnImage example_cluster ''svc-a''"
    by (simp add: usesAnImage_def example_cluster_def)
  moreover have "listServices (ListServicesPages unnamed_client) [] =
     Inr [''arn:aws:ecs:us-east-1:1:service/prod/svc-a'', '''']"
    by (simp add: unnamed_client_def truthfulClient_def)
  ultimately show ?thesis
    by (simp add: shared_final ownsAnImage_def unnamed_run example_shortNames)
qed

section \<open>Runs that find nothing\<close>

text \<open>
  C6. When the enumeration completes with no service, the program prints
  \<open>No services found.\<close> and ends with exit code 0 without reaching the report; when the
  task list is empty after all services have been listed, it prints \<open>No tasks found.\<close>
  and ends with exit code 0 without reaching the report.
\<close>

theorem empty_results_end_successfully:
  "(cluster \<noteq> [] \<and> listServices (ListServicesPages client) [] = Inr [] \<longrightarrow>
      main cluster (Inr client) sched =
        \<lparr>stdout = [''Fetching services in cluster '' @ [CHR 0x27] @ cluster @ [CHR 0x27] @ ''...'',
                   ''No services found.''],
         status = Exit 0, final = None\<rparr>) \<and>
   (cluster \<noteq> [] \<and> listServices (ListServicesPages client) [] = Inr arns \<and> arns \<noteq> [] \<and>
    deriveNames arns ([], []) = Inr derived \<and>
    taskArns (listAllTasks client (pickOrder (listingOrder sched) (fst derived))) = [] \<longrightarrow>
      main cluster (Inr client) sched =
        \<lparr>stdout = [''Fetching services in cluster '' @ [CHR 0x27] @ cluster @ [CHR 0x27] @ ''...'',
                   ''Fetching task ARNs for each service...'',
                   ''No tasks found.''],
         status = Exit 0, final = None\<rparr>)"
  by (simp add: main_def serviceStage_def taskStage_def Let_def)

theorem empty_results_end_successfully_witness:
  "main ''prod'' (Inr empty_client) program_order =
     \<lparr>stdout = [''Fetching services in cluster '' @ [CHR 0x27] @ ''prod'' @ [CHR 0x27] @ ''...'',
                ''No services found.''],
      status = Exit 0, final = None\<rparr> \<and>
   main ''prod'' (Inr idle_client) program_order =
     \<lparr>stdout = [''Fetching services in cluster '' @ [CHR 0x27] @ ''prod'' @ [CHR 0x27] @ ''...'',
                ''Fetching task ARNs for each service...'',
                ''No tasks found.''],
      status = Exit 0, final = None\<rparr>"
proof -
  have e: "listServices (ListServicesPages empty_client) [] = Inr []"
    by (simp add: empty_client_def truthfulClient_def)
  have i: "listServices (ListServicesPages idle_client) [] =
      Inr [''arn:aws:ecs:us-east-1:1:service/prod/svc-idle'']"
    by (simp add: idle_client_def truthfulClient_def)
  have d: "deriveNames [''arn:aws:ecs:us-east-1:1:service/prod/svc-idle''] ([], []) =
      Inr ([''svc-idle''], [(''svc-idle'', ''arn:aws:ecs:us-east-1:1:service/prod/svc-idle'')])"
    by code_simp
  have t: "taskArns (listAllTasks idle_client (pickOrder (listingOrder program_order)
      (fst ([''svc-idle''], [(''svc-idle'', ''arn:aws:ecs:us-east-1:1:service/prod/svc-idle'')])))) = []"
    by code_simp
  show ?thesis
    using empty_results_end_successfully[of "''prod''" empty_client program_order]
      empty_results_end_successfully[of "''prod''" idle_client program_order
        "[''arn:aws:ecs:us-east-1:1:service/prod/svc-idle'']"
        "([''svc-idle''], [(''svc-idle'', ''arn:aws:ecs:us-east-1:1:service/prod/svc-idle'')])"]
      e i d t
    by simp
qed

section \<open>Failing calls\<close>

lemma listedTasks_absorb: "listedTasks (absorbFailures client) = listedTasks client"
  by (simp add: fun_eq_iff absorbFailures_def listedTasks_def)

lemma answeredTasks_absorb: "answeredTasks (absorbFailures client) = answeredTasks client"
  by (simp add: fun_eq_iff absorbFailures_def answeredTasks_def)

lemma declaredImages_absorb: "declaredImages (absorbFailures client) = declaredImages client"
  by (simp add: fun_eq_iff absorbFailures_def declaredImages_def)

lemma listTasksWorker_listed:
  "listTasksWorker client svcName st =
     (if listedTasks client svcName = [] then st
      else \<lparr>taskArns = taskArns st @ listedTasks client svcName,
            taskToService = fold (\<lambda>t m. AList.update t svcName m) (listedTasks client svcName)
              (taskToService st)\<rparr>)"
  by (cases "ListTasks client svcName") (simp_all add: listTasksWorker_def listedTasks_def)

lemma describeBatch_answered:
  "describeBatch client t2s batch st =
     fold (recordTask t2s) (answeredTasks client batch) (st\<lparr>describeCalls := describeCalls st @ [batch]\<rparr>)"
  by (cases "DescribeTasks client batch") (simp_all add: describeBatch_def answeredTasks_def Let_def)

lemma criticalSections_declared:
  "criticalSections client tds = concat (map (\<lambda>tdArn. map (Pair tdArn) (declaredImages client tdArn)) tds)"
proof -
  have "(\<lambda>tdArn. case DescribeTaskDefinition client tdArn of Inl err \<Rightarrow> [] | Inr images \<Rightarrow> map (Pair tdArn) images)
      = (\<lambda>tdArn. map (Pair tdArn) (declaredImages client tdArn))"
    by (auto simp: fun_eq_iff declaredImages_def split: sum.splits)
  then show ?thesis by (simp add: criticalSections_def)
qed

lemma listAllTasks_absorb: "listAllTasks (absorbFailures client) order = listAllTasks client order"
proof -
  have "listTasksWorker (absorbFailures client) = listTasksWorker client"
    by (simp add: fun_eq_iff listTasksWorker_listed listedTasks_absorb)
  then show ?thesis by (simp add: listAllTasks_def)
qed

lemma describeLoop_absorb:
  "describeLoop (absorbFailures client) t2s arns i st = describeLoop client t2s arns i st"
proof (induction client t2s arns i st rule: describeLoop.induct)
  case (1 client t2s arns i st)
  show ?case
  proof (cases "i < length arns")
    case True
    have b: "describeBatch (absorbFailures client) t2s batch st = describeBatch client t2s batch st" for batch
      by (simp add: describeBatch_answered answeredTasks_absorb)
    show ?thesis
      using "1.IH"[OF True refl] True
      by (simp add: describeLoop_unfold[OF True] b batch_slice)
  next
    case False
    then show ?thesis by (simp add: describeLoop_exit)
  qed
qed

lemma main_absorb: "main cluster (Inr (absorbFailures client)) sched = main cluster (Inr client) sched"
proof -
  have p: "ListServicesPages (absorbFailures client) = ListServicesPages client"
    by (simp add: absorbFailures_def)
  have d: "describeAllTasks (absorbFailures client) l = describeAllTasks client l" for l
    by (simp add: describeAllTasks_def describeLoop_absorb)
  have c: "criticalSections (absorbFailures client) tds = criticalSections client tds" for tds
    by (simp add: criticalSections_declared declaredImages_absorb)
  have r: "reportStage out2 (absorbFailures client) sched ns l = reportStage out2 client sched ns l"
    for out2 ns l
    by (simp add: reportStage_def d c)
  have t: "taskStage out1 (absorbFailures client) sched ns = taskStage out1 client sched ns" for out1 ns
    by (simp add: taskStage_def listAllTasks_absorb r Let_def cong: if_cong)
  show ?thesis by (auto simp: main_def serviceStage_def p t Let_def split: sum.splits)
qed

text \<open>
  C7. A failing call for a service, a batch or a task definition has the effect of an
  empty answer and no other: the run with the client is the run with the client whose
  failing calls answer with nothing instead, in what it prints, how it ends and in its
  final state. The task list holds the tasks of every listing call that succeeded, the
  set of task definitions holds the definition of every task of every bulk description
  that succeeded, and every batch is described, whatever happened to the batches before
  it.
\<close>

theorem failures_contribute_nothing:
  "main cluster (Inr client) sched = main cluster (Inr (absorbFailures client)) sched \<and>
   taskArns (listAllTasks client order) = concat (map (listedTasks client) order) \<and>
   set (taskDefArns (describeAllTasks client l)) =
     TaskDefinitionArn ` set (describedTasks client (taskArns l)) \<and>
   describedTasks client arns = concat (map (answeredTasks client) (chunks arns))"
  using ownershipInv_describeAllTasks[of l client]
  by (simp add: main_absorb taskArns_listAllTasks ownershipInv_def describedTasks_def)

lemma failing_final:
  "final (main ''prod'' (Inr failing_client) example_schedule) =
     Some \<lparr>names = [''svc-a'', ''svc-b''],
           listing = \<lparr>taskArns = [''task-1''], taskToService = [(''task-1'', ''svc-a'')]\<rparr>,
           ownership = \<lparr>describeCalls = [[''task-1'']], taskDefArns = [''def-1''],
                        taskDefToService = [(''def-1'', [''svc-a''])]\<rparr>,
           imageToServices = [(''repo/app:1'', [''svc-a'']), (''repo/sidecar:1'', [''svc-a''])]\<rparr>"
  by code_simp

theorem failures_contribute_nothing_witness:
  "ListTasks failing_client ''svc-b'' = Inl ApiError \<and>
   ListTasks (absorbFailures failing_client) ''svc-b'' = Inr [] \<and>
   imageToServices (the (final (main ''prod'' (Inr (absorbFailures failing_client)) example_schedule))) =
     [(''repo/app:1'', [''svc-a'']), (''repo/sidecar:1'', [''svc-a''])]"
proof -
  have "main ''prod'' (Inr (absorbFailures failing_client)) example_schedule =
      main ''prod'' (Inr failing_client) example_schedule"
    using failures_contribute_nothing[of "''prod''" failing_client example_schedule] by simp
  then have "imageToServices (the (final (main ''prod'' (Inr (absorbFailures failing_client)) example_schedule))) =
     [(''repo/app:1'', [''svc-a'']), (''repo/sidecar:1'', [''svc-a''])]"
    by (simp add: failing_final)
  moreover have "ListTasks failing_client ''svc-b'' = Inl ApiError"
    by (simp add: failing_client_def)
  moreover have "ListTasks (absorbFailures failing_client) ''svc-b'' = Inr []"
    by (simp add: failing_client_def absorbFailures_def listedTasks_def)
  ultimately show ?thesis by simp
qed

section \<open>The worker pools\<close>

text \<open>
  The invariant of the pool: the channel holds one element for every worker that has
  not received from it yet, and one more while \<^verbatim>\<open>main\<close> is between its send and its
  \<^verbatim>\<open>go\<close> statement; the counter of the wait group counts the workers that have not ended,
  and one more while \<^verbatim>\<open>main\<close> is between \<^verbatim>\<open>wg.Add(1)\<close> and the \<^verbatim>\<open>go\<close> statement; and every
  item of the work list is pending, with a worker, or done.
\<close>

lemma running_add [simp]:
  "size (filter_mset (\<lambda>w. inAction (snd w)) (add_mset w ws)) =
     size (filter_mset (\<lambda>w. inAction (snd w)) ws) + (if inAction (snd w) then 1 else 0)"
  by simp

lemma itemsAt_add [simp]:
  "itemsAt P (add_mset w ws) = (if P (snd w) then add_mset (fst w) (itemsAt P ws) else itemsAt P ws)"
  by (simp add: itemsAt_def)

lemma itemsAt_empty [simp]: "itemsAt P {#} = {#}"
  by (simp add: itemsAt_def)

lemma poolInv_start: "poolInv work merge items s0 (startPool items s0)"
  by (simp add: poolInv_def startPool_def running_def openSections_def)

lemma mset_concat_Cons_sections:
  "mset (concat (map f (x # xs))) = mset (f x) + mset (concat (map f xs))"
  by simp

lemma poolInv_step:
  assumes "poolInv work merge items s0 p" and "poolStep work merge p q"
  shows "poolInv work merge items s0 q"
  using assms(2,1)
proof (cases rule: poolStep.cases)
  case (wgAdd x xs)
  then show ?thesis using assms(1)
    by (auto simp: poolInv_def running_def openSections_def)
next
  case semSend
  then show ?thesis using assms(1)
    by (auto simp: poolInv_def running_def openSections_def limit_def)
next
  case (go x xs)
  then show ?thesis using assms(1)
    by (auto simp: poolInv_def running_def openSections_def ac_simps)
next
  case loopEnd
  then show ?thesis using assms(1)
    by (auto simp: poolInv_def running_def openSections_def)
next
  case wgWait
  then show ?thesis using assms(1)
    by (auto simp: poolInv_def running_def openSections_def)
next
  case (callFailed x err)
  then obtain ws where ws: "workers p = add_mset (x, AtCall) ws"
    by (meson multi_member_split)
  with callFailed show ?thesis using assms(1)
    by (auto simp: poolInv_def running_def openSections_def moveWorker_def sectionsOf_def)
next
  case (callReturned x ms)
  then obtain ws where ws: "workers p = add_mset (x, AtCall) ws"
    by (meson multi_member_split)
  with callReturned show ?thesis using assms(1)
    by (auto simp: poolInv_def running_def openSections_def moveWorker_def sectionsOf_def)
next
  case (locked x m ms)
  then obtain ws where ws: "workers p = add_mset (x, AtMerge (m # ms)) ws"
    by (meson multi_member_split)
  with locked show ?thesis using assms(1)
    by (auto simp: poolInv_def running_def openSections_def moveWorker_def)
next
  case (mergedAll x)
  then obtain ws where ws: "workers p = add_mset (x, AtMerge []) ws"
    by (meson multi_member_split)
  with mergedAll show ?thesis using assms(1)
    by (auto simp: poolInv_def running_def openSections_def moveWorker_def)
next
  case (barAdd x)
  then obtain ws where ws: "workers p = add_mset (x, AtBarAdd) ws"
    by (meson multi_member_split)
  with barAdd show ?thesis using assms(1)
    by (auto simp: poolInv_def running_def openSections_def moveWorker_def)
next
  case (semReceive x)
  then obtain ws where ws: "workers p = add_mset (x, AtRelease) ws"
    by (meson multi_member_split)
  with semReceive show ?thesis using assms(1)
    by (auto simp: poolInv_def running_def openSections_def moveWorker_def)
next
  case (wgDone x)
  then obtain ws where ws: "workers p = add_mset (x, AtDone) ws"
    by (meson multi_member_split)
  with wgDone show ?thesis using assms(1)
    by (auto simp: poolInv_def running_def openSections_def)
qed

lemma poolReaches_inv: "poolReaches work merge items s0 p \<Longrightarrow> poolInv work merge items s0 p"
  by (induction rule: poolReaches.induct) (auto intro: poolInv_start poolInv_step)

lemma pool_guarantees:
  assumes "poolReaches work merge items s0 p"
  shows "poolGuarantees items p"
proof -
  from assms have inv: "poolInv work merge items s0 p" by (rule poolReaches_inv)
  then have "running p \<le> 5" by (auto simp: poolInv_def limit_def split: if_splits)
  moreover from inv have a: "mset (attempted p) + itemsAt (\<lambda>pc. pc = AtCall) (workers p) + mset (pending p) = mset items"
    and c: "mset (completed p) + itemsAt beforeBar (workers p) + mset (pending p) = mset items"
    by (simp_all add: poolInv_def)
  from a have "mset (attempted p) \<subseteq># mset items"
    by (metis mset_subset_eq_add_left union_assoc)
  moreover from c have "mset (completed p) \<subseteq># mset items"
    by (metis mset_subset_eq_add_left union_assoc)
  moreover from inv have b: "bar p = length (completed p)" by (simp add: poolInv_def)
  moreover have "pending p = [] \<and> workers p = {#} \<and> mset (attempted p) = mset items \<and>
      mset (completed p) = mset items \<and> bar p = length items" if "mainAt p = Returned"
  proof -
    from inv that have e: "pending p = []" "workers p = {#}" by (simp_all add: poolInv_def)
    with a c have "mset (attempted p) = mset items" "mset (completed p) = mset items" by simp_all
    moreover from this(2) have "length (completed p) = length items" by (rule mset_eq_length)
    ultimately show ?thesis using e b by simp
  qed
  ultimately show ?thesis by (simp add: poolGuarantees_def)
qed

text \<open>
  No state before the return of \<^verbatim>\<open>wg.Wait()\<close> is stuck: the receive from the channel and
  \<^verbatim>\<open>wg.Done()\<close> always find what they need. Every step takes the pool closer to the
  return, so the pool returns under every schedule.
\<close>

lemma pool_progress:
  assumes "poolReaches work merge items s0 p" and "mainAt p \<noteq> Returned"
  shows "\<exists>q. poolStep work merge p q"
proof -
  from assms(1) have inv: "poolInv work merge items s0 p" by (rule poolReaches_inv)
  show ?thesis
  proof (cases "workers p = {#}")
    case True
    show ?thesis
    proof (cases "mainAt p")
      case AtAdd
      then show ?thesis
        by (cases "pending p") (blast intro: poolStep.loopEnd poolStep.wgAdd)+
    next
      case AtSend
      with inv True have "sem p < limit" by (simp add: poolInv_def running_def limit_def)
      with AtSend show ?thesis by (blast intro: poolStep.semSend)
    next
      case AtGo
      with inv obtain x xs where "pending p = x # xs"
        by (cases "pending p") (auto simp: poolInv_def)
      with AtGo show ?thesis by (blast intro: poolStep.go)
    next
      case AtWait
      with inv True have "wg p = 0" by (simp add: poolInv_def)
      with AtWait show ?thesis by (blast intro: poolStep.wgWait)
    next
      case Returned
      with assms(2) show ?thesis by simp
    qed
  next
    case False
    then obtain x pc ws where w: "workers p = add_mset (x, pc) ws"
      by (metis multiset_cases surj_pair)
    then have m: "(x, pc) \<in># workers p" by simp
    show ?thesis
    proof (cases pc)
      case AtCall
      with m show ?thesis
        by (cases "work x") (blast intro: poolStep.callFailed poolStep.callReturned)+
    next
      case (AtMerge ms)
      with m show ?thesis
        by (cases ms) (blast intro: poolStep.mergedAll poolStep.locked)+
    next
      case AtBarAdd
      with m show ?thesis by (blast intro: poolStep.barAdd)
    next
      case AtRelease
      with inv w have "0 < sem p" by (simp add: poolInv_def running_def)
      with AtRelease m show ?thesis by (blast intro: poolStep.semReceive)
    next
      case AtDone
      with inv w have "0 < wg p" by (simp add: poolInv_def)
      with AtDone m show ?thesis by (blast intro: poolStep.wgDone)
    qed
  qed
qed

lemma pool_terminates:
  assumes "poolStep work merge p q"
  shows "stepsLeft work q < stepsLeft work p"
  using assms
proof (cases rule: poolStep.cases)
  case (callFailed x err)
  then obtain ws where "workers p = add_mset (x, AtCall) ws" by (meson multi_member_split)
  with callFailed show ?thesis by (simp add: stepsLeft_def moveWorker_def)
next
  case (callReturned x ms)
  then obtain ws where "workers p = add_mset (x, AtCall) ws" by (meson multi_member_split)
  with callReturned show ?thesis by (simp add: stepsLeft_def moveWorker_def sectionsOf_def)
next
  case (locked x m ms)
  then obtain ws where "workers p = add_mset (x, AtMerge (m # ms)) ws" by (meson multi_member_split)
  with locked show ?thesis by (simp add: stepsLeft_def moveWorker_def)
next
  case (mergedAll x)
  then obtain ws where "workers p = add_mset (x, AtMerge []) ws" by (meson multi_member_split)
  with mergedAll show ?thesis by (simp add: stepsLeft_def moveWorker_def)
next
  case (barAdd x)
  then obtain ws where "workers p = add_mset (x, AtBarAdd) ws" by (meson multi_member_split)
  with barAdd show ?thesis by (simp add: stepsLeft_def moveWorker_def)
next
  case (semReceive x)
  then obtain ws where "workers p = add_mset (x, AtRelease) ws" by (meson multi_member_split)
  with semReceive show ?thesis by (simp add: stepsLeft_def moveWorker_def)
next
  case (wgDone x)
  then obtain ws where "workers p = add_mset (x, AtDone) ws" by (meson multi_member_split)
  with wgDone show ?thesis by (simp add: stepsLeft_def)
qed (simp_all add: stepsLeft_def)

text \<open>
  What the pools leave in the shared data when they return is what the stages of
  \<open>main\<close> above compute for some order of the work: the critical sections have run one
  after the other, in the order recorded in \<open>merged\<close>.
\<close>

lemma pool_result:
  assumes "poolReaches work merge items s0 p" and "mainAt p = Returned"
  shows "shared p = fold merge (merged p) s0 \<and>
         mset (merged p) = mset (concat (map (sectionsOf work) items))"
  using poolReaches_inv[OF assms(1)] assms(2)
  by (auto simp: poolInv_def openSections_def)

lemma image_pool_result:
  assumes "poolReaches (imageWork client) (mergeImage td2s) taskDefList [] p" and "mainAt p = Returned"
  shows "shared p = resolveImages td2s (pickOrder (merged p) (criticalSections client taskDefList))"
proof -
  have "sectionsOf (imageWork client) =
      (\<lambda>tdArn. case DescribeTaskDefinition client tdArn of Inl err \<Rightarrow> [] | Inr images \<Rightarrow> map (Pair tdArn) images)"
    by (auto simp: fun_eq_iff sectionsOf_def imageWork_def split: sum.splits)
  then have "concat (map (sectionsOf (imageWork client)) taskDefList) = criticalSections client taskDefList"
    by (simp add: criticalSections_def)
  with pool_result[OF assms] show ?thesis by (simp add: resolveImages_def pickOrder_def)
qed

lemma fold_failed_listings:
  "\<forall>svc \<in> set failed. listedTasks client svc = [] \<Longrightarrow> fold (listTasksWorker client) failed st = st"
  by (induction failed arbitrary: st) (simp_all add: listTasksWorker_listed)

lemma listing_pool_result:
  assumes "poolReaches (listingWork client) (listTasksWorker client) serviceNames
      \<lparr>taskArns = [], taskToService = []\<rparr> p" and "mainAt p = Returned"
  shows "\<exists>order. mset order = mset serviceNames \<and>
           shared p = listAllTasks client (pickOrder order serviceNames)"
proof -
  let ?ok = "\<lambda>svc. \<exists>arns. ListTasks client svc = Inr arns"
  let ?failed = "filter (\<lambda>svc. \<not> ?ok svc) serviceNames"
  have s: "sectionsOf (listingWork client) = (\<lambda>svc. if ?ok svc then [svc] else [])"
    by (auto simp: fun_eq_iff sectionsOf_def listingWork_def split: sum.splits)
  have "concat (map (\<lambda>svc. if ?ok svc then [svc] else []) xs) = filter ?ok xs" for xs
    by (induction xs) simp_all
  with pool_result[OF assms] s have sh: "shared p = fold (listTasksWorker client) (merged p) \<lparr>taskArns = [], taskToService = []\<rparr>"
    and m: "mset (merged p) = mset (filter ?ok serviceNames)" by simp_all
  let ?order = "merged p @ ?failed"
  have "mset ?order = mset serviceNames" using m by simp
  moreover have "\<forall>svc \<in> set ?failed. listedTasks client svc = []"
    by (auto simp: listedTasks_def split: sum.splits)
  then have "fold (listTasksWorker client) ?order \<lparr>taskArns = [], taskToService = []\<rparr> = shared p"
    using sh by (simp add: fold_failed_listings)
  ultimately have "mset ?order = mset serviceNames \<and>
      shared p = listAllTasks client (pickOrder ?order serviceNames)"
    by (simp add: listAllTasks_def pickOrder_def)
  then show ?thesis by blast
qed

lemma poolReaches_next:
  "poolReaches work merge items s0 p \<Longrightarrow> poolStep work merge p q \<Longrightarrow> q = q' \<Longrightarrow>
   poolReaches work merge items s0 q'"
  by (auto intro: poolReaches.step)

text \<open>
  Runs of the pool are built from two stretches: \<^verbatim>\<open>main\<close> starts the worker of the
  next item when the channel has room, and a started worker runs to its end.
\<close>

lemma poolReaches_eq:
  "poolReaches work merge items s0 p \<Longrightarrow> p = q \<Longrightarrow> poolReaches work merge items s0 q"
  by simp

lemma pool_send_go:
  assumes r: "poolReaches work merge items s0 p"
    and at: "mainAt p = AtSend" and pe: "pending p \<noteq> []" and s: "sem p < limit"
  shows "poolReaches work merge items s0
           (p\<lparr>sem := sem p + 1, workers := add_mset (hd (pending p), AtCall) (workers p),
              pending := tl (pending p), mainAt := AtAdd\<rparr>)"
proof -
  from pe obtain x xs where p: "pending p = x # xs" by (cases "pending p") auto
  let ?p2 = "p\<lparr>sem := sem p + 1, mainAt := AtGo\<rparr>"
  have r2: "poolReaches work merge items s0 ?p2"
    by (rule poolReaches.step[OF r poolStep.semSend[OF at s]])
  have "poolStep work merge ?p2
      (?p2\<lparr>workers := add_mset (x, AtCall) (workers ?p2), pending := xs, mainAt := AtAdd\<rparr>)"
    by (rule poolStep.go) (simp_all add: p)
  from poolReaches.step[OF r2 this] show ?thesis by (simp add: p)
qed

lemma pool_spawned:
  assumes r: "poolReaches work merge items s0 p"
    and at: "mainAt p = AtAdd" and pe: "pending p \<noteq> []" and s: "sem p < limit"
  shows "poolReaches work merge items s0 (spawned p)"
proof -
  from pe obtain x xs where p: "pending p = x # xs" by (cases "pending p") auto
  let ?p1 = "p\<lparr>wg := wg p + 1, mainAt := AtSend\<rparr>"
  have r1: "poolReaches work merge items s0 ?p1"
    by (rule poolReaches.step[OF r poolStep.wgAdd[OF at p]])
  have "poolReaches work merge items s0
      (?p1\<lparr>sem := sem ?p1 + 1, workers := add_mset (hd (pending ?p1), AtCall) (workers ?p1),
              pending := tl (pending ?p1), mainAt := AtAdd\<rparr>)"
    by (rule pool_send_go[OF r1]) (simp_all add: pe s)
  moreover have "?p1\<lparr>sem := sem ?p1 + 1, workers := add_mset (hd (pending ?p1), AtCall) (workers ?p1),
              pending := tl (pending ?p1), mainAt := AtAdd\<rparr> = spawned p"
    using at by (cases p) (simp add: spawned_def)
  ultimately show ?thesis by simp
qed

lemma pool_merges:
  assumes "poolReaches work merge items s0 p" and "(x, AtMerge ms) \<in># workers p"
  shows "poolReaches work merge items s0
           (p\<lparr>workers := add_mset (x, AtBarAdd) (workers p - {#(x, AtMerge ms)#}),
              merged := merged p @ ms, shared := fold merge ms (shared p)\<rparr>)"
  using assms
proof (induction ms arbitrary: p)
  case Nil
  from poolReaches.step[OF Nil(1) poolStep.mergedAll[OF Nil(2)]]
  show ?case by (simp add: moveWorker_def)
next
  case (Cons m ms)
  let ?q = "p\<lparr>workers := moveWorker (x, AtMerge (m # ms)) (AtMerge ms) (workers p),
             shared := merge m (shared p), merged := merged p @ [m]\<rparr>"
  have rq: "poolReaches work merge items s0 ?q"
    by (rule poolReaches.step[OF Cons.prems(1) poolStep.locked[OF Cons.prems(2)]])
  have "(x, AtMerge ms) \<in># workers ?q" by (simp add: moveWorker_def)
  from Cons.IH[OF rq this] show ?case by (simp add: moveWorker_def)
qed

lemma pool_finished:
  assumes r: "poolReaches work merge items s0 p" and w: "(x, AtCall) \<in># workers p"
    and s: "0 < sem p" and g: "0 < wg p"
  shows "poolReaches work merge items s0 (finished work merge x p)"
proof -
  let ?ws = "workers p - {#(x, AtCall)#}"
  let ?b = "p\<lparr>workers := add_mset (x, AtBarAdd) ?ws, attempted := attempted p @ [x],
             merged := merged p @ sectionsOf work x,
             shared := fold merge (sectionsOf work x) (shared p)\<rparr>"
  have rb: "poolReaches work merge items s0 ?b"
  proof (cases "work x")
    case (Inl err)
    show ?thesis
      by (rule poolReaches_eq[OF poolReaches.step[OF r poolStep.callFailed[where work = work, OF w Inl]]])
        (cases p, simp add: moveWorker_def sectionsOf_def Inl)
  next
    case (Inr ms)
    let ?c = "p\<lparr>workers := moveWorker (x, AtCall) (AtMerge ms) (workers p),
               attempted := attempted p @ [x]\<rparr>"
    have rc: "poolReaches work merge items s0 ?c"
      by (rule poolReaches.step[OF r poolStep.callReturned[where work = work, OF w Inr]])
    have mc: "(x, AtMerge ms) \<in># workers ?c" by (simp add: moveWorker_def)
    show ?thesis
      by (rule poolReaches_eq[OF pool_merges[OF rc mc]])
        (cases p, simp add: moveWorker_def sectionsOf_def Inr)
  qed
  let ?c1 = "?b\<lparr>workers := moveWorker (x, AtBarAdd) AtRelease (workers ?b), bar := bar ?b + 1,
              completed := completed ?b @ [x]\<rparr>"
  have r1: "poolReaches work merge items s0 ?c1"
    by (rule poolReaches.step[OF rb poolStep.barAdd]) simp
  let ?c2 = "?c1\<lparr>workers := moveWorker (x, AtRelease) AtDone (workers ?c1), sem := sem ?c1 - 1\<rparr>"
  have r2: "poolReaches work merge items s0 ?c2"
    by (rule poolReaches.step[OF r1 poolStep.semReceive]) (simp_all add: moveWorker_def s)
  let ?c3 = "?c2\<lparr>workers := workers ?c2 - {#(x, AtDone)#}, wg := wg ?c2 - 1\<rparr>"
  have r3: "poolReaches work merge items s0 ?c3"
    by (rule poolReaches.step[OF r2 poolStep.wgDone]) (simp_all add: moveWorker_def g)
  have "?c3 = finished work merge x p"
    by (cases p) (simp add: finished_def moveWorker_def)
  with r3 show ?thesis by simp
qed

text \<open>
  The runs of the two pools on the busy cluster: the first pool reaches the state in
  which the channel is full, and from there its end; the second pool reaches its end.
\<close>

lemmas busy_defs = spawned_def finished_def startPool_def limit_def busy_services_def sectionsOf_def
  listingWork_def busy_client_def listTasksWorker_def

lemma busy_listing_run:
  "poolReaches (listingWork busy_client) (listTasksWorker busy_client) busy_services
     \<lparr>taskArns = [], taskToService = []\<rparr> busy_pool_full"
  "poolReaches (listingWork busy_client) (listTasksWorker busy_client) busy_services
     \<lparr>taskArns = [], taskToService = []\<rparr> busy_pool_end"
proof -
  let ?W = "listingWork busy_client"
  let ?M = "listTasksWorker busy_client"
  let ?l0 = "\<lparr>taskArns = [], taskToService = []\<rparr>"
  let ?R = "poolReaches ?W ?M busy_services ?l0"
  let ?p0 = "startPool busy_services ?l0 :: (string, string, Listing) pool"
  let ?p1 = "spawned ?p0"
  let ?p2 = "spawned ?p1"
  let ?p3 = "spawned ?p2"
  let ?p4 = "spawned ?p3"
  let ?p5 = "spawned ?p4"
  let ?p6 = "finished ?W ?M ''svc-3'' ?p5"
  let ?p7 = "spawned ?p6"
  have r0: "?R ?p0" by (rule poolReaches.start)
  have r1: "?R ?p1" by (rule pool_spawned[OF r0]) (simp_all add: busy_defs)
  have r2: "?R ?p2" by (rule pool_spawned[OF r1]) (simp_all add: busy_defs)
  have r3: "?R ?p3" by (rule pool_spawned[OF r2]) (simp_all add: busy_defs)
  have r4: "?R ?p4" by (rule pool_spawned[OF r3]) (simp_all add: busy_defs)
  have r5: "?R ?p5" by (rule pool_spawned[OF r4]) (simp_all add: busy_defs)
  have r6: "?R ?p6" by (rule pool_finished[OF r5]) (simp_all add: busy_defs)
  have r7: "?R ?p7" by (rule pool_spawned[OF r6]) (simp_all add: busy_defs)
  show full: "?R busy_pool_full"
    by (rule poolReaches_next[OF r7 poolStep.wgAdd[where x = "''svc-7''" and xs = "[]"]])
      (simp_all add: busy_defs busy_pool_full_def)
  let ?q1 = "finished ?W ?M ''svc-5'' busy_pool_full"
  let ?q2 = "?q1\<lparr>sem := sem ?q1 + 1, workers := add_mset (hd (pending ?q1), AtCall) (workers ?q1),
              pending := tl (pending ?q1), mainAt := AtAdd\<rparr>"
  let ?q3 = "finished ?W ?M ''svc-7'' ?q2"
  let ?q4 = "finished ?W ?M ''svc-6'' ?q3"
  let ?q5 = "finished ?W ?M ''svc-4'' ?q4"
  let ?q6 = "finished ?W ?M ''svc-2'' ?q5"
  let ?q7 = "finished ?W ?M ''svc-1'' ?q6"
  have s1: "?R ?q1" by (rule pool_finished[OF full]) (simp_all add: busy_pool_full_def)
  have s2: "?R ?q2" by (rule pool_send_go[OF s1]) (simp_all add: busy_defs busy_pool_full_def)
  have s3: "?R ?q3" by (rule pool_finished[OF s2]) (simp_all add: busy_defs busy_pool_full_def)
  have s4: "?R ?q4" by (rule pool_finished[OF s3]) (simp_all add: busy_defs busy_pool_full_def)
  have s5: "?R ?q5" by (rule pool_finished[OF s4]) (simp_all add: busy_defs busy_pool_full_def)
  have s6: "?R ?q6" by (rule pool_finished[OF s5]) (simp_all add: busy_defs busy_pool_full_def)
  have s7: "?R ?q7" by (rule pool_finished[OF s6]) (simp_all add: busy_defs busy_pool_full_def)
  have s8: "?R (?q7\<lparr>mainAt := AtWait\<rparr>)"
    by (rule poolReaches.step[OF s7 poolStep.loopEnd]) (simp_all add: busy_defs busy_pool_full_def)
  show "?R busy_pool_end"
    by (rule poolReaches_next[OF s8 poolStep.wgWait])
      (simp_all add: busy_defs busy_pool_full_def busy_pool_end_def)
qed

lemmas busy_image_defs = spawned_def finished_def startPool_def limit_def busy_definitions_def
  sectionsOf_def imageWork_def busy_client_def busy_owners_def

lemma busy_merges:
  "fold (mergeImage busy_owners)
     [(''def-3'', ''repo/app:1''), (''def-1'', ''repo/app:1''), (''def-1'', ''repo/sidecar:1'')] [] =
   [(''repo/app:1'', [''svc-1'', ''svc-4'']), (''repo/sidecar:1'', [''svc-1''])]"
  by code_simp

lemma busy_image_run:
  "poolReaches (imageWork busy_client) (mergeImage busy_owners) busy_definitions [] busy_image_end"
proof -
  let ?W = "imageWork busy_client"
  let ?M = "mergeImage busy_owners"
  let ?R = "poolReaches ?W ?M busy_definitions []"
  let ?p0 = "startPool busy_definitions [] ::
      (string, string \<times> string, (string \<times> string list) list) pool"
  let ?p1 = "spawned ?p0"
  let ?p2 = "spawned ?p1"
  let ?p3 = "spawned ?p2"
  let ?p4 = "finished ?W ?M ''def-3'' ?p3"
  let ?p5 = "finished ?W ?M ''def-2'' ?p4"
  let ?p6 = "finished ?W ?M ''def-1'' ?p5"
  have r0: "?R ?p0" by (rule poolReaches.start)
  have r1: "?R ?p1" by (rule pool_spawned[OF r0]) (simp_all add: busy_image_defs)
  have r2: "?R ?p2" by (rule pool_spawned[OF r1]) (simp_all add: busy_image_defs)
  have r3: "?R ?p3" by (rule pool_spawned[OF r2]) (simp_all add: busy_image_defs)
  have r4: "?R ?p4" by (rule pool_finished[OF r3]) (simp_all add: busy_image_defs)
  have r5: "?R ?p5" by (rule pool_finished[OF r4]) (simp_all add: busy_image_defs)
  have r6: "?R ?p6" by (rule pool_finished[OF r5]) (simp_all add: busy_image_defs)
  have r7: "?R (?p6\<lparr>mainAt := AtWait\<rparr>)"
    by (rule poolReaches.step[OF r6 poolStep.loopEnd]) (simp_all add: busy_image_defs)
  have m: "fold ?M [(''def-1'', ''repo/app:1''), (''def-1'', ''repo/sidecar:1'')]
      (fold ?M [(''def-3'', ''repo/app:1'')] []) =
      [(''repo/app:1'', [''svc-1'', ''svc-4'']), (''repo/sidecar:1'', [''svc-1''])]"
    using busy_merges by simp
  show ?thesis
    by (rule poolReaches_next[OF r7 poolStep.wgWait])
      (simp_all add: spawned_def finished_def startPool_def busy_definitions_def sectionsOf_def
        imageWork_def busy_client_def busy_image_end_def m[simplified])
qed

text \<open>
  What the shared data hold when a pool has returned. The task list of the first pool
  holds the tasks of every successful listing, each listing once, and the reverse index
  gives for every listed task a service that listed it. The mapping of the second pool
  has an entry for exactly the images that the described definitions declare, and the
  owners of an image are the owners of the definitions that declare it, each once.
\<close>

lemma mset_concat_map_cong:
  "mset xs = mset ys \<Longrightarrow> mset (concat (map f xs)) = mset (concat (map f ys))"
proof -
  have "mset (concat (map f zs)) = (\<Sum>z \<in># mset zs. mset (f z))" for zs
    by (induction zs) simp_all
  then show "mset xs = mset ys \<Longrightarrow> mset (concat (map f xs)) = mset (concat (map f ys))"
    by simp
qed

lemma listing_pool_tasks:
  assumes "poolReaches (listingWork client) (listTasksWorker client) serviceNames
      \<lparr>taskArns = [], taskToService = []\<rparr> p" and "mainAt p = Returned"
  shows "mset (taskArns (shared p)) = mset (concat (map (listedTasks client) serviceNames))"
    and "\<forall>t \<in> set (taskArns (shared p)).
           mapIndex [] (taskToService (shared p)) t \<in> set serviceNames \<and>
           t \<in> set (listedTasks client (mapIndex [] (taskToService (shared p)) t))"
proof -
  from listing_pool_result[OF assms] obtain order where
    o: "mset order = mset serviceNames" and s: "shared p = listAllTasks client order"
    by (auto simp: pickOrder_def)
  from mset_concat_map_cong[OF o, of "listedTasks client"]
  show "mset (taskArns (shared p)) = mset (concat (map (listedTasks client) serviceNames))"
    by (simp add: s taskArns_listAllTasks)
  show "\<forall>t \<in> set (taskArns (shared p)).
           mapIndex [] (taskToService (shared p)) t \<in> set serviceNames \<and>
           t \<in> set (listedTasks client (mapIndex [] (taskToService (shared p)) t))"
  proof
    fix t
    assume "t \<in> set (taskArns (shared p))"
    then have "map_of (taskToService (listAllTasks client order)) t \<noteq> None"
      by (auto simp: s taskArns_listAllTasks taskToService_listAllTasks_None)
    then obtain svc where m: "map_of (taskToService (listAllTasks client order)) t = Some svc"
      by auto
    from taskToService_listAllTasks_Some[OF m] m o
    show "mapIndex [] (taskToService (shared p)) t \<in> set serviceNames \<and>
           t \<in> set (listedTasks client (mapIndex [] (taskToService (shared p)) t))"
      by (auto simp: s mapIndex_def dest: mset_eq_setD)
  qed
qed

lemma imageOwners_iff:
  "x \<in> imageOwners td2s ms img \<longleftrightarrow> (\<exists>td. (td, img) \<in> set ms \<and> x \<in> set (owners td2s td))"
proof
  assume "x \<in> imageOwners td2s ms img"
  then obtain ev where "ev \<in> set ms" "snd ev = img" "x \<in> set (owners td2s (fst ev))"
    by (auto simp: imageOwners_def split: if_splits)
  then have "(fst ev, img) \<in> set ms \<and> x \<in> set (owners td2s (fst ev))" by auto
  then show "\<exists>td. (td, img) \<in> set ms \<and> x \<in> set (owners td2s td)" ..
next
  assume "\<exists>td. (td, img) \<in> set ms \<and> x \<in> set (owners td2s td)"
  then obtain td where "(td, img) \<in> set ms" "x \<in> set (owners td2s td)" by blast
  then show "x \<in> imageOwners td2s ms img"
    unfolding imageOwners_def by (intro UN_I[of "(td, img)"]) simp_all
qed

lemma snd_image_iff: "img \<in> snd ` set ms \<longleftrightarrow> (\<exists>td. (td, img) \<in> set ms)"
  by force

lemma image_pool_owners:
  assumes "poolReaches (imageWork client) (mergeImage td2s) taskDefList [] q" and "mainAt q = Returned"
  shows "hasKey (shared q) img \<longleftrightarrow> (\<exists>td \<in> set taskDefList. img \<in> set (declaredImages client td))"
    and "set (owners (shared q) img) =
           (\<Union>td \<in> {td \<in> set taskDefList. img \<in> set (declaredImages client td)}. set (owners td2s td))"
    and "distinct (owners (shared q) img)"
proof -
  let ?ms = "pickOrder (merged q) (criticalSections client taskDefList)"
  have s: "shared q = resolveImages td2s ?ms" by (rule image_pool_result[OF assms])
  have inv: "imageInv td2s ?ms (shared q)" unfolding s by (rule imageInv_resolveImages)
  have c: "(td, i) \<in> set ?ms \<longleftrightarrow> td \<in> set taskDefList \<and> i \<in> set (declaredImages client td)" for td i
    by (simp add: set_pickOrder criticalSections_iff)
  from inv have "hasKey (shared q) img \<longleftrightarrow> img \<in> snd ` set ?ms" by (simp add: imageInv_def)
  also have "\<dots> \<longleftrightarrow> (\<exists>td \<in> set taskDefList. img \<in> set (declaredImages client td))"
    unfolding snd_image_iff c by blast
  finally show "hasKey (shared q) img \<longleftrightarrow> (\<exists>td \<in> set taskDefList. img \<in> set (declaredImages client td))" .
  from inv have "set (owners (shared q) img) = imageOwners td2s ?ms img" by (simp add: imageInv_def)
  also have "\<dots> = (\<Union>td \<in> {td \<in> set taskDefList. img \<in> set (declaredImages client td)}. set (owners td2s td))"
  proof (intro set_eqI)
    fix x
    show "x \<in> imageOwners td2s ?ms img \<longleftrightarrow>
        x \<in> (\<Union>td \<in> {td \<in> set taskDefList. img \<in> set (declaredImages client td)}. set (owners td2s td))"
      unfolding imageOwners_iff c by blast
  qed
  finally show "set (owners (shared q) img) =
           (\<Union>td \<in> {td \<in> set taskDefList. img \<in> set (declaredImages client td)}. set (owners td2s td))" .
  from inv show "distinct (owners (shared q) img)" by (simp add: imageInv_def)
qed

lemma image_pool_order:
  assumes "poolReaches (imageWork client) (mergeImage td2s) taskDefList [] q" and "mainAt q = Returned"
  shows "\<exists>order. mset order = mset (criticalSections client taskDefList) \<and>
           shared q = resolveImages td2s (pickOrder order (criticalSections client taskDefList))"
proof -
  have "sectionsOf (imageWork client) =
      (\<lambda>tdArn. case DescribeTaskDefinition client tdArn of Inl err \<Rightarrow> [] | Inr images \<Rightarrow> map (Pair tdArn) images)"
    by (auto simp: fun_eq_iff sectionsOf_def imageWork_def split: sum.splits)
  then have "concat (map (sectionsOf (imageWork client)) taskDefList) = criticalSections client taskDefList"
    by (simp add: criticalSections_def)
  with pool_result[OF assms] have "mset (merged q) = mset (criticalSections client taskDefList)"
    by simp
  with image_pool_result[OF assms] show ?thesis by blast
qed

text \<open>
  C4. In every state that either of the two pools reaches from empty shared data, for
  every schedule: at most 5 actions are running; no item has been attempted or completed
  more often than it is in the work list; the progress counter has advanced once for
  every completed item, whether its call succeeded or failed; the pool is not stuck
  before it returns, and every step brings it closer to its return, so it does return;
  and when it has returned, every item has been attempted once and has completed, no
  worker is left and the progress counter is the number of items. The shared data are
  then what the stages of \<open>main\<close> compute for some order of the work: the task list
  holds the tasks of every successful listing once and the reverse index maps each of
  them to a service that listed it; the image mapping has the images that the described
  definitions declare, each owned by the owners of the definitions declaring it.
\<close>

theorem bounded_pools:
  "(poolReaches (listingWork client) (listTasksWorker client) serviceNames
        \<lparr>taskArns = [], taskToService = []\<rparr> p \<longrightarrow>
      poolGuarantees serviceNames p \<and>
      (mainAt p \<noteq> Returned \<longrightarrow> (\<exists>p'. poolStep (listingWork client) (listTasksWorker client) p p')) \<and>
      (\<forall>p'. poolStep (listingWork client) (listTasksWorker client) p p' \<longrightarrow>
         stepsLeft (listingWork client) p' < stepsLeft (listingWork client) p) \<and>
      (mainAt p = Returned \<longrightarrow>
         mset (taskArns (shared p)) = mset (concat (map (listedTasks client) serviceNames)) \<and>
         (\<forall>t \<in> set (taskArns (shared p)).
            mapIndex [] (taskToService (shared p)) t \<in> set serviceNames \<and>
            t \<in> set (listedTasks client (mapIndex [] (taskToService (shared p)) t))) \<and>
         (\<exists>order. mset order = mset serviceNames \<and>
            shared p = listAllTasks client (pickOrder order serviceNames)))) \<and>
   (poolReaches (imageWork client) (mergeImage td2s) taskDefList [] q \<longrightarrow>
      poolGuarantees taskDefList q \<and>
      (mainAt q \<noteq> Returned \<longrightarrow> (\<exists>q'. poolStep (imageWork client) (mergeImage td2s) q q')) \<and>
      (\<forall>q'. poolStep (imageWork client) (mergeImage td2s) q q' \<longrightarrow>
         stepsLeft (imageWork client) q' < stepsLeft (imageWork client) q) \<and>
      (mainAt q = Returned \<longrightarrow>
         (\<forall>img. (hasKey (shared q) img \<longleftrightarrow>
                   (\<exists>td \<in> set taskDefList. img \<in> set (declaredImages client td))) \<and>
                set (owners (shared q) img) =
                  (\<Union>td \<in> {td \<in> set taskDefList. img \<in> set (declaredImages client td)}.
                     set (owners td2s td)) \<and>
                distinct (owners (shared q) img)) \<and>
         (\<exists>order. mset order = mset (criticalSections client taskDefList) \<and>
            shared q = resolveImages td2s (pickOrder order (criticalSections client taskDefList)))))"
proof (intro conjI impI allI)
  assume r: "poolReaches (listingWork client) (listTasksWorker client) serviceNames
      \<lparr>taskArns = [], taskToService = []\<rparr> p"
  show "poolGuarantees serviceNames p" using r by (rule pool_guarantees)
  show "\<exists>p'. poolStep (listingWork client) (listTasksWorker client) p p'" if "mainAt p \<noteq> Returned"
    using r that by (rule pool_progress)
  show "stepsLeft (listingWork client) p' < stepsLeft (listingWork client) p"
    if "poolStep (listingWork client) (listTasksWorker client) p p'" for p'
    using that by (rule pool_terminates)
  show "mset (taskArns (shared p)) = mset (concat (map (listedTasks client) serviceNames))"
    if "mainAt p = Returned"
    using r that by (rule listing_pool_tasks)
  show "\<forall>t \<in> set (taskArns (shared p)).
            mapIndex [] (taskToService (shared p)) t \<in> set serviceNames \<and>
            t \<in> set (listedTasks client (mapIndex [] (taskToService (shared p)) t))"
    if "mainAt p = Returned"
    using r that by (rule listing_pool_tasks)
  show "\<exists>order. mset order = mset serviceNames \<and>
            shared p = listAllTasks client (pickOrder order serviceNames)"
    if "mainAt p = Returned"
    using r that by (rule listing_pool_result)
next
  assume r: "poolReaches (imageWork client) (mergeImage td2s) taskDefList [] q"
  show "poolGuarantees taskDefList q" using r by (rule pool_guarantees)
  show "\<exists>q'. poolStep (imageWork client) (mergeImage td2s) q q'" if "mainAt q \<noteq> Returned"
    using r that by (rule pool_progress)
  show "stepsLeft (imageWork client) q' < stepsLeft (imageWork client) q"
    if "poolStep (imageWork client) (mergeImage td2s) q q'" for q'
    using that by (rule pool_terminates)
  show "hasKey (shared q) img \<longleftrightarrow> (\<exists>td \<in> set taskDefList. img \<in> set (declaredImages client td))"
    if "mainAt q = Returned" for img
    using r that by (rule image_pool_owners)
  show "set (owners (shared q) img) =
          (\<Union>td \<in> {td \<in> set taskDefList. img \<in> set (declaredImages client td)}. set (owners td2s td))"
    if "mainAt q = Returned" for img
    using r that by (rule image_pool_owners)
  show "distinct (owners (shared q) img)" if "mainAt q = Returned" for img
    using r that by (rule image_pool_owners)
  show "\<exists>order. mset order = mset (criticalSections client taskDefList) \<and>
            shared q = resolveImages td2s (pickOrder order (criticalSections client taskDefList))"
    if "mainAt q = Returned"
    using r that by (rule image_pool_order)
qed

theorem bounded_pools_witness:
  "poolReaches (listingWork busy_client) (listTasksWorker busy_client) busy_services
     \<lparr>taskArns = [], taskToService = []\<rparr> busy_pool_full \<and>
   ListTasks busy_client ''svc-3'' = Inl ApiError \<and>
   attempted busy_pool_full = [''svc-3''] \<and> bar busy_pool_full = 1 \<and>
   mainAt busy_pool_full = AtSend \<and> pending busy_pool_full = [''svc-7''] \<and>
   sem busy_pool_full = limit \<and> running busy_pool_full = 5 \<and>
   poolGuarantees busy_services busy_pool_full \<and>
   (\<exists>p'. poolStep (listingWork busy_client) (listTasksWorker busy_client) busy_pool_full p') \<and>
   poolReaches (listingWork busy_client) (listTasksWorker busy_client) busy_services
     \<lparr>taskArns = [], taskToService = []\<rparr> busy_pool_end \<and>
   mainAt busy_pool_end = Returned \<and> bar busy_pool_end = 7 \<and>
   poolGuarantees busy_services busy_pool_end \<and>
   mset (taskArns (shared busy_pool_end)) =
     mset (concat (map (listedTasks busy_client) busy_services)) \<and>
   taskArns (shared busy_pool_end) =
     [''task-of-svc-5'', ''task-of-svc-7'', ''task-of-svc-6'', ''task-of-svc-4'',
      ''task-of-svc-2'', ''task-of-svc-1''] \<and>
   poolReaches (imageWork busy_client) (mergeImage busy_owners) busy_definitions [] busy_image_end \<and>
   DescribeTaskDefinition busy_client ''def-2'' = Inl ApiError \<and>
   mainAt busy_image_end = Returned \<and> bar busy_image_end = 3 \<and>
   poolGuarantees busy_definitions busy_image_end \<and>
   set (owners (shared busy_image_end) ''repo/app:1'') =
     (\<Union>td \<in> {td \<in> set busy_definitions. ''repo/app:1'' \<in> set (declaredImages busy_client td)}.
        set (owners busy_owners td)) \<and>
   shared busy_image_end = [(''repo/app:1'', [''svc-1'', ''svc-4'']), (''repo/sidecar:1'', [''svc-1''])]"
proof -
  note full = bounded_pools[of busy_client busy_services busy_pool_full busy_owners
      busy_definitions busy_image_end]
  note ended = bounded_pools[of busy_client busy_services busy_pool_end busy_owners
      busy_definitions busy_image_end]
  have a: "mainAt busy_pool_full = AtSend" "mainAt busy_pool_end = Returned"
    "mainAt busy_image_end = Returned"
    by (simp_all add: busy_pool_full_def busy_pool_end_def busy_image_end_def)
  from full busy_listing_run(1) a(1)
  have f: "poolGuarantees busy_services busy_pool_full"
    "\<exists>p'. poolStep (listingWork busy_client) (listTasksWorker busy_client) busy_pool_full p'"
    by simp_all
  from ended busy_listing_run(2) a(2)
  have d: "poolGuarantees busy_services busy_pool_end"
    "mset (taskArns (shared busy_pool_end)) =
       mset (concat (map (listedTasks busy_client) busy_services))"
    by simp_all
  from ended busy_image_run a(3)
  have i: "poolGuarantees busy_definitions busy_image_end"
    "set (owners (shared busy_image_end) ''repo/app:1'') =
       (\<Union>td \<in> {td \<in> set busy_definitions. ''repo/app:1'' \<in> set (declaredImages busy_client td)}.
          set (owners busy_owners td))"
    by simp_all
  have c: "ListTasks busy_client ''svc-3'' = Inl ApiError"
    "DescribeTaskDefinition busy_client ''def-2'' = Inl ApiError"
    by (simp_all add: busy_client_def)
  have s: "attempted busy_pool_full = [''svc-3'']" "bar busy_pool_full = 1"
    "pending busy_pool_full = [''svc-7'']" "sem busy_pool_full = limit" "running busy_pool_full = 5"
    by (simp_all add: busy_pool_full_def limit_def running_def)
  have e: "bar busy_pool_end = 7" "bar busy_image_end = 3"
    "taskArns (shared busy_pool_end) =
       [''task-of-svc-5'', ''task-of-svc-7'', ''task-of-svc-6'', ''task-of-svc-4'',
        ''task-of-svc-2'', ''task-of-svc-1'']"
    "shared busy_image_end = [(''repo/app:1'', [''svc-1'', ''svc-4'']), (''repo/sidecar:1'', [''svc-1''])]"
    by (simp_all add: busy_pool_end_def busy_image_end_def)
  show ?thesis
    by (intro conjI busy_listing_run busy_image_run a f d i c s e)
qed

end
